theory Spec2Isabelle
  imports Main "HOL-Library.Word" "HOL-Library.Signed_Division" "HOL-Library.Sublist"
begin

unbundle bit_operations_syntax

section \<open>Machine types of the target\<close>

text \<open>
  The firmware is built for the ESP8266 (\<^verbatim>\<open>ESP.wdtFeed()\<close>, pins \<^verbatim>\<open>D3\<close>..\<^verbatim>\<open>D6\<close>, OTA port 8266):
  \<^verbatim>\<open>int\<close> and \<^verbatim>\<open>long\<close> are 32-bit two's complement, \<^verbatim>\<open>unsigned char\<close> is 8 bits, and GCC
  shifts a negative signed value to the right by sign extension. A \<^verbatim>\<open>long\<close> is a
  \<open>32 word\<close> read through \<open>sint\<close>; arithmetic wraps around.
\<close>

type_synonym long = "32 word"
type_synonym uchar = "8 word"

section \<open>Utils.h: debounced elapsed-time checks\<close>

text \<open>
  \<^verbatim>\<open>secondsSincePowerOn()\<close> is only declared in Utils.h; the value it returns in the call is
  the parameter \<open>currentSec\<close>. \<^verbatim>\<open>long &lastCheckSec\<close> is passed as its content before the
  call and returned as its content after the call. \<^verbatim>\<open>const long &intervalSec\<close> is read once,
  before any write, and is passed as its value.
\<close>

definition secondsElapsed :: "long \<Rightarrow> long \<Rightarrow> long \<Rightarrow> bool \<times> long" where
  "secondsElapsed currentSec lastCheckSec intervalSec =
     (if lastCheckSec = 0 \<or> intervalSec <s currentSec - lastCheckSec
      then (True, lastCheckSec)
      else (False, lastCheckSec))"

definition secondsElapsedAndUpdate :: "long \<Rightarrow> long \<Rightarrow> long \<Rightarrow> bool \<times> long" where
  "secondsElapsedAndUpdate currentSec lastCheckSec intervalSec =
     (if lastCheckSec = 0 \<or> intervalSec <s currentSec - lastCheckSec
      then (True, currentSec)
      else (False, lastCheckSec))"

section \<open>Utils.h: crc32\<close>

definition POLY :: "32 word" where
  "POLY = 0xedb88320"

text \<open>
  The inner loop, \<^verbatim>\<open>for (k = 0; k < 8; k++) crc = crc & 1 ? (crc >> 1) ^ POLY : crc >> 1;\<close>
  with \<^verbatim>\<open>long crc\<close>: the shift is the arithmetic one. \<^verbatim>\<open>POLY\<close> is an \<^verbatim>\<open>unsigned int\<close>
  literal, the exclusive or is taken on the 32-bit patterns and stored back into \<^verbatim>\<open>crc\<close>.
\<close>

fun crc32_bits :: "nat \<Rightarrow> long \<Rightarrow> long" where
  "crc32_bits 0 crc = crc"
| "crc32_bits (Suc k) crc =
     crc32_bits k (if crc AND 1 \<noteq> 0 then signed_drop_bit 1 crc XOR POLY
                   else signed_drop_bit 1 crc)"

text \<open>The outer loop \<^verbatim>\<open>while (len--)\<close> over the \<^verbatim>\<open>len\<close> bytes at \<^verbatim>\<open>buf\<close>.\<close>

fun crc32_loop :: "long \<Rightarrow> uchar list \<Rightarrow> long" where
  "crc32_loop crc [] = crc"
| "crc32_loop crc (b # buf) = crc32_loop (crc32_bits 8 (crc XOR ucast b)) buf"

definition crc32 :: "long \<Rightarrow> uchar list \<Rightarrow> long" where
  "crc32 crc buf = NOT (crc32_loop (NOT crc) buf)"

text \<open>
  The reference CRC-32 as the specification words it: reflected polynomial \<open>0xEDB88320\<close>,
  one byte at a time, eight shifts per byte on an unsigned 32-bit accumulator,
  complemented on the way in and on the way out.
\<close>

fun crc32_reference_bits :: "nat \<Rightarrow> 32 word \<Rightarrow> 32 word" where
  "crc32_reference_bits 0 crc = crc"
| "crc32_reference_bits (Suc k) crc =
     crc32_reference_bits k (if crc AND 1 \<noteq> 0 then drop_bit 1 crc XOR POLY
                             else drop_bit 1 crc)"

fun crc32_reference_loop :: "32 word \<Rightarrow> uchar list \<Rightarrow> 32 word" where
  "crc32_reference_loop crc [] = crc"
| "crc32_reference_loop crc (b # buf) =
     crc32_reference_loop (crc32_reference_bits 8 (crc XOR ucast b)) buf"

definition crc32_reference :: "32 word \<Rightarrow> uchar list \<Rightarrow> 32 word" where
  "crc32_reference crc buf = NOT (crc32_reference_loop (NOT crc) buf)"

text \<open>The bytes of an ASCII text.\<close>

definition ascii :: "string \<Rightarrow> uchar list" where
  "ascii s = map of_char s"

section \<open>The Arduino String and C library functions used by the interval codec\<close>

text \<open>
  A \<^verbatim>\<open>String\<close> is the list of its characters before the terminating NUL, so it holds no
  NUL itself. Lengths and indices fit \<^verbatim>\<open>int\<close> and \<^verbatim>\<open>unsigned int\<close> (a string on the
  device is far shorter than \<open>2^31\<close>), so an index is an \<open>int\<close> where the source declares
  \<^verbatim>\<open>int\<close>, and its conversion to \<^verbatim>\<open>unsigned int\<close>, which the source applies to
  non-negative values only, is \<open>nat\<close>.
\<close>

text \<open>\<^verbatim>\<open>String::operator[]\<close>: the character at the index, NUL beyond the end.\<close>

definition charAt :: "string \<Rightarrow> nat \<Rightarrow> char" where
  "charAt s index = (if index < length s then s ! index else CHR 0x00)"

text \<open>
  \<^verbatim>\<open>strchr\<close>: the offset of the first occurrence of the character; the terminating NUL
  counts as part of the string, so looking for NUL finds the end.
\<close>

fun strchr :: "string \<Rightarrow> char \<Rightarrow> nat option" where
  "strchr [] ch = (if ch = CHR 0x00 then Some 0 else None)"
| "strchr (c # cs) ch = (if c = ch then Some 0 else map_option Suc (strchr cs ch))"

text \<open>\<^verbatim>\<open>strstr\<close>: the offset of the first occurrence of the second string in the first.\<close>

fun strstr :: "string \<Rightarrow> string \<Rightarrow> nat option" where
  "strstr [] s2 = (if s2 = [] then Some 0 else None)"
| "strstr (c # cs) s2 =
     (if prefix s2 (c # cs) then Some 0 else map_option Suc (strstr cs s2))"

text \<open>\<^verbatim>\<open>String::indexOf(char, fromIndex)\<close> and \<^verbatim>\<open>String::indexOf(const String &, fromIndex)\<close>.\<close>

definition indexOf_char :: "string \<Rightarrow> char \<Rightarrow> nat \<Rightarrow> int" where
  "indexOf_char s ch fromIndex =
     (if fromIndex \<ge> length s then - 1
      else case strchr (drop fromIndex s) ch of
             None \<Rightarrow> - 1
           | Some k \<Rightarrow> int (fromIndex + k))"

definition indexOf :: "string \<Rightarrow> string \<Rightarrow> nat \<Rightarrow> int" where
  "indexOf s s2 fromIndex =
     (if fromIndex \<ge> length s then - 1
      else case strstr (drop fromIndex s) s2 of
             None \<Rightarrow> - 1
           | Some k \<Rightarrow> int (fromIndex + k))"

text \<open>\<^verbatim>\<open>String::substring(left, right)\<close>.\<close>

definition substring :: "string \<Rightarrow> nat \<Rightarrow> nat \<Rightarrow> string" where
  "substring s left right =
     (let l = (if left > right then right else left);
          r = (if left > right then left else right)
      in if l \<ge> length s then []
         else take ((if r > length s then length s else r) - l) (drop l s))"

text \<open>\<^verbatim>\<open>String::remove(index, count)\<close>.\<close>

definition remove_chars :: "string \<Rightarrow> nat \<Rightarrow> nat \<Rightarrow> string" where
  "remove_chars s index count =
     (if index \<ge> length s then s
      else if count = 0 then s
      else let count' = (if count > length s - index then length s - index else count)
           in take index s @ drop (index + count') s)"

text \<open>
  \<^verbatim>\<open>atol\<close>, which is \<^verbatim>\<open>strtol(s, NULL, 10)\<close>: white space is skipped, a sign is optional, the
  digits that follow are read, and a value out of range is replaced by \<^verbatim>\<open>LONG_MAX\<close> or
  \<^verbatim>\<open>LONG_MIN\<close>.
\<close>

definition isspace :: "char \<Rightarrow> bool" where
  "isspace c \<longleftrightarrow> c = CHR '' '' \<or> (9 \<le> (of_char c :: int) \<and> (of_char c :: int) \<le> 13)"

definition isdigit :: "char \<Rightarrow> bool" where
  "isdigit c \<longleftrightarrow> 48 \<le> (of_char c :: int) \<and> (of_char c :: int) \<le> 57"

fun digits_value :: "int \<Rightarrow> string \<Rightarrow> int" where
  "digits_value acc [] = acc"
| "digits_value acc (c # cs) =
     (if isdigit c then digits_value (acc * 10 + (of_char c - 48)) cs else acc)"

definition atol :: "string \<Rightarrow> long" where
  "atol s =
     (let s1 = dropWhile isspace s;
          neg = (s1 \<noteq> [] \<and> hd s1 = CHR ''-'');
          s2 = (if s1 \<noteq> [] \<and> (hd s1 = CHR ''-'' \<or> hd s1 = CHR ''+'') then tl s1 else s1);
          n = digits_value 0 s2
      in if neg then (if n > 2147483648 then word_of_int (- 2147483648) else word_of_int (- n))
         else (if n > 2147483647 then word_of_int 2147483647 else word_of_int n))"

text \<open>\<^verbatim>\<open>sprintf\<close> with \<^verbatim>\<open>%d\<close> and with \<^verbatim>\<open>%02d\<close>.\<close>

function dec :: "int \<Rightarrow> string" where
  "dec n = (if n < 10 then [char_of (48 + n)]
            else dec (n div 10) @ [char_of (48 + n mod 10)])"
  by pat_completeness auto
termination
  by (relation "measure nat") auto

declare dec.simps [simp del]

definition fmt_d :: "int \<Rightarrow> string" where
  "fmt_d i = (if i < 0 then CHR ''-'' # dec (- i) else dec i)"

definition fmt_02d :: "int \<Rightarrow> string" where
  "fmt_02d i = (if 0 \<le> i \<and> i < 10 then CHR ''0'' # fmt_d i else fmt_d i)"

text \<open>The operators \<^verbatim>\<open>/\<close> and \<^verbatim>\<open>%\<close> on \<^verbatim>\<open>long\<close>: the quotient is truncated towards zero.\<close>

definition long_div :: "long \<Rightarrow> long \<Rightarrow> long" where
  "long_div a b = word_of_int (sint a sdiv sint b)"

definition long_mod :: "long \<Rightarrow> long \<Rightarrow> long" where
  "long_mod a b = word_of_int (sint a smod sint b)"

section \<open>Utils.h: Trim\<close>

text \<open>
  The first loop of \<^verbatim>\<open>Trim\<close>, from the state \<open>(ret, i)\<close> at the loop test. After a removal
  \<^verbatim>\<open>i--\<close> and the \<^verbatim>\<open>i++\<close> of the \<^verbatim>\<open>continue\<close> leave \<open>i\<close> as it was.
\<close>

function Trim_left :: "string \<Rightarrow> string \<Rightarrow> nat \<Rightarrow> string" where
  "Trim_left chars ret i =
     (if i < length ret then
        if indexOf_char chars (charAt ret i) 0 \<noteq> - 1
        then Trim_left chars (remove_chars ret i 1) i
        else ret
      else ret)"
  by pat_completeness auto
termination
  by (relation "measure (\<lambda>(chars, ret, i). length ret)") (auto simp add: remove_chars_def)

declare Trim_left.simps [simp del]

text \<open>
  The second loop, \<^verbatim>\<open>for (int i = data.length() - 1; i >= 0; i--)\<close>, from the state
  \<open>(ret, i)\<close> at the loop test.
\<close>

function Trim_right :: "string \<Rightarrow> string \<Rightarrow> int \<Rightarrow> string" where
  "Trim_right chars ret i =
     (if i \<ge> 0 then
        if indexOf_char chars (charAt ret (nat i)) 0 \<noteq> - 1
        then Trim_right chars (remove_chars ret (nat i) 1) (i - 1)
        else ret
      else ret)"
  by pat_completeness auto
termination
  by (relation "measure (\<lambda>(chars, ret, i). nat (i + 1))") auto

declare Trim_right.simps [simp del]

definition Trim :: "string \<Rightarrow> string \<Rightarrow> string" where
  "Trim data chars = Trim_right chars (Trim_left chars data 0) (int (length data) - 1)"

section \<open>Utils.h: formatInterval and scanInterval\<close>

definition formatInterval :: "long \<Rightarrow> string" where
  "formatInterval secs =
     (let days = long_div (long_div (long_div secs 60) 60) 24;
          hours = long_mod (long_div (long_div secs 60) 60) 24;
          minutes = long_mod (long_div secs 60) 60;
          seconds = long_mod secs 60
      in if days \<le>s 0
         then fmt_02d (sint hours) @ '':'' @ fmt_02d (sint minutes) @ '':'' @
              fmt_02d (sint seconds)
         else fmt_d (sint days) @ '' '' @ fmt_02d (sint hours) @ '':'' @
              fmt_02d (sint minutes) @ '':'' @ fmt_02d (sint seconds))"

text \<open>
  \<^verbatim>\<open>scanInterval\<close> returns its result and the content of \<^verbatim>\<open>long &secs\<close> after the call;
  \<open>secs\<close> is its content before the call.
\<close>

definition scanInterval :: "string \<Rightarrow> long \<Rightarrow> bool \<times> long" where
  "scanInterval interval0 secs =
     (let interval = Trim interval0 '' '';
          first = indexOf interval '':'' 0
      in if first \<noteq> - 1 then
           let second = indexOf interval '':'' (nat (first + 1))
           in if second \<noteq> - 1 then
                let space = indexOf interval '' '' 0;
                    daysString = (if space \<noteq> - 1 \<and> space < first
                                  then substring interval 0 (nat space) else []);
                    hoursString = (if space \<noteq> - 1 \<and> space < first
                                   then substring interval (nat (space + 1)) (nat first)
                                   else substring interval 0 (nat first));
                    minutesString = substring interval (nat (first + 1)) (nat second);
                    secondsString = substring interval (nat (second + 1)) (length interval);
                    days = atol daysString;
                    hours = atol hoursString;
                    minutes = atol minutesString;
                    seconds = atol secondsString
                in if 0 \<le>s days \<and>
                      0 \<le>s hours \<and> hours \<le>s 23 \<and>
                      0 \<le>s minutes \<and> minutes \<le>s 59 \<and>
                      0 \<le>s seconds \<and> seconds \<le>s 59
                   then (True, 0 + days * 24 * 60 * 60 + hours * 60 * 60 + minutes * 60 + seconds)
                   else (False, secs)
              else (False, secs)
         else (False, secs))"

section \<open>The segments of an interval text\<close>

text \<open>
  The text segments as the specification describes the format \<^verbatim>\<open>[D ]HH:MM:SS\<close>: the text
  before the first colon, with an optional day segment that ends at its first space, the
  text between the first two colons, and the text after the second colon.
\<close>

definition before_char :: "char \<Rightarrow> string \<Rightarrow> string" where
  "before_char c s = takeWhile (\<lambda>x. x \<noteq> c) s"

definition after_char :: "char \<Rightarrow> string \<Rightarrow> string" where
  "after_char c s = tl (dropWhile (\<lambda>x. x \<noteq> c) s)"

definition days_segment :: "string \<Rightarrow> string" where
  "days_segment t =
     (if CHR '' '' \<in> set (before_char CHR '':'' t)
      then before_char CHR '' '' (before_char CHR '':'' t) else [])"

definition hours_segment :: "string \<Rightarrow> string" where
  "hours_segment t =
     (if CHR '' '' \<in> set (before_char CHR '':'' t)
      then after_char CHR '' '' (before_char CHR '':'' t) else before_char CHR '':'' t)"

definition minutes_segment :: "string \<Rightarrow> string" where
  "minutes_segment t = before_char CHR '':'' (after_char CHR '':'' t)"

definition seconds_segment :: "string \<Rightarrow> string" where
  "seconds_segment t = after_char CHR '':'' (after_char CHR '':'' t)"

section \<open>tracker.ino: loop\<close>

text \<open>The three global flags of tracker.ino.\<close>

record power_flags =
  gsmHasPower :: bool
  isStarting :: bool
  isStopping :: bool

text \<open>
  Every call that \<^verbatim>\<open>loop()\<close> makes into a collaborator. None of the collaborators is part
  of the two source files; a tick is modelled by the calls it makes, in order, each with
  the flags as they stand when the call is made.
\<close>

datatype call =
    ReadVoltage | ReadValues
  | ConsoleIsEmpty | ConsoleRemoveHead | SendAT string
  | WebHandleClient | OtaHandle
  | GsmPowerOn | GsmPowerOff
  | GsmBegin | GsmStop | GsmHandleClient | WaitingForGps
  | SmsHandleClient | MqttHandleClient | WaitingForMqtt
  | HaveToSleep | WifiDisconnect | WifiModeOff | DeepSleep
  | Yield | Delay nat

text \<open>
  What the collaborators answer during one tick, one field for each place where
  \<^verbatim>\<open>loop()\<close> reads: the console queue at line 162, \<^verbatim>\<open>myData.isOtaActive\<close>,
  \<^verbatim>\<open>myOptions.gsmPower\<close> at line 175 and again at line 190, the result of
  \<^verbatim>\<open>myGsmGps.begin()\<close>, \<^verbatim>\<open>waitingForGps()\<close> at line 206 and again at line 218, the two
  enable options, \<^verbatim>\<open>waitingForMqtt()\<close>, \<^verbatim>\<open>haveToSleep()\<close> and \<^verbatim>\<open>myGsmGps.isGsmActive\<close>.
\<close>

record tick_env =
  consoleCmds :: "string list"
  isOtaActive :: bool
  gsmPower_starting :: bool
  begin_result :: bool
  gsmPower_stopping :: bool
  waitingForGps_processing :: bool
  isSmsEnabled :: bool
  isMqttEnabled :: bool
  waitingForGps_sleep :: bool
  waitingForMqtt :: bool
  haveToSleep :: bool
  isGsmActive :: bool

record orch = power_flags +
  calls :: "(call \<times> power_flags) list"

definition snapshot :: "orch \<Rightarrow> power_flags" where
  "snapshot s = \<lparr>gsmHasPower = gsmHasPower s, isStarting = isStarting s,
                 isStopping = isStopping s\<rparr>"

definition do_call :: "call \<Rightarrow> orch \<Rightarrow> orch" where
  "do_call c s = s\<lparr>calls := calls s @ [(c, snapshot s)]\<rparr>"

text \<open>Lines 159 to 172: sensors, one console command, web server, OTA.\<close>

definition loop_head :: "tick_env \<Rightarrow> orch \<Rightarrow> orch" where
  "loop_head e s0 =
     (let s1 = do_call ReadValues (do_call ReadVoltage s0);
          s2 = do_call ConsoleIsEmpty s1;
          s3 = (case consoleCmds e of
                  [] \<Rightarrow> s2
                | cmd # _ \<Rightarrow> do_call (SendAT cmd) (do_call ConsoleRemoveHead s2));
          s4 = do_call WebHandleClient s3
      in if isOtaActive e then do_call OtaHandle s4 else s4)"

text \<open>Lines 174 to 187: \<^verbatim>\<open>// Starting gsm ?\<close>\<close>

definition starting_gsm :: "tick_env \<Rightarrow> orch \<Rightarrow> orch" where
  "starting_gsm e s0 =
     (if gsmPower_starting e \<and> \<not> gsmHasPower s0 then
        if \<not> isStarting s0 \<and> \<not> isStopping s0 then
          let s1 = s0\<lparr>isStarting := True\<rparr>;
              s2 = do_call GsmPowerOn s1;
              s3 = s2\<lparr>gsmHasPower := True\<rparr>;
              s4 = do_call GsmBegin s3;
              s5 = (if \<not> begin_result e
                    then (do_call GsmPowerOff (do_call GsmStop s4))\<lparr>gsmHasPower := False\<rparr>
                    else s4)
          in s5\<lparr>isStarting := False\<rparr>
        else s0
      else s0)"

text \<open>Lines 189 to 198: \<^verbatim>\<open>// Stopping gsm ?\<close>\<close>

definition stopping_gsm :: "tick_env \<Rightarrow> orch \<Rightarrow> orch" where
  "stopping_gsm e s0 =
     (if \<not> gsmPower_stopping e \<and> gsmHasPower s0 then
        if \<not> isStarting s0 \<and> \<not> isStopping s0 then
          let s1 = s0\<lparr>isStopping := True\<rparr>;
              s2 = do_call GsmPowerOff (do_call GsmStop s1)
          in s2\<lparr>gsmHasPower := False, isStopping := False\<rparr>
        else s0
      else s0)"

text \<open>Lines 200 to 214: \<^verbatim>\<open>// Do gsm processing.\<close>\<close>

definition gsm_processing :: "tick_env \<Rightarrow> orch \<Rightarrow> orch" where
  "gsm_processing e s0 =
     (if gsmHasPower s0 \<and> \<not> isStarting s0 \<and> \<not> isStopping s0 then
        let s1 = do_call WaitingForGps (do_call GsmHandleClient s0)
        in if \<not> waitingForGps_processing e then
             let s2 = (if isSmsEnabled e then do_call SmsHandleClient s1 else s1)
             in if isMqttEnabled e then do_call MqttHandleClient s2 else s2
           else s1
      else s0)"

text \<open>
  Lines 216 to 229: \<^verbatim>\<open>// Deep Sleep?\<close> The condition is evaluated left to right and
  \<^verbatim>\<open>waitingForMqtt()\<close> is called only when \<^verbatim>\<open>waitingForGps()\<close> has answered false.
  \<^verbatim>\<open>myDeepSleep.sleep()\<close> is a call like the others: what is written after it in
  \<^verbatim>\<open>loop()\<close> follows it in the model.
\<close>

definition deep_sleep :: "tick_env \<Rightarrow> orch \<Rightarrow> orch" where
  "deep_sleep e s0 =
     (let s1 = do_call WaitingForGps s0 in
      if waitingForGps_sleep e then s1
      else
        let s2 = do_call WaitingForMqtt s1 in
        if waitingForMqtt e then s2
        else
          let s3 = do_call HaveToSleep s2 in
          if haveToSleep e then
            let s4 = (if isGsmActive e then do_call GsmStop s3 else s3);
                s5 = do_call GsmPowerOff s4;
                s6 = do_call WifiModeOff (do_call WifiDisconnect s5);
                s7 = do_call Yield s6
            in do_call DeepSleep s7
          else s3)"

text \<open>Lines 231 and 232.\<close>

definition loop_tail :: "orch \<Rightarrow> orch" where
  "loop_tail s = do_call (Delay 10) (do_call Yield s)"

text \<open>One tick: \<^verbatim>\<open>loop()\<close> from the flags at entry to the flags at exit and the calls made.\<close>

definition loop :: "tick_env \<Rightarrow> power_flags \<Rightarrow> power_flags \<times> (call \<times> power_flags) list" where
  "loop e f =
     (let s0 = \<lparr>gsmHasPower = gsmHasPower f, isStarting = isStarting f,
                 isStopping = isStopping f, calls = []\<rparr>;
          s = loop_tail (deep_sleep e (gsm_processing e (stopping_gsm e
                (starting_gsm e (loop_head e s0)))))
      in (snapshot s, calls s))"

text \<open>A run: the scheduler calls \<^verbatim>\<open>loop()\<close> once for each element of the list.\<close>

fun run :: "tick_env list \<Rightarrow> power_flags \<Rightarrow> power_flags" where
  "run [] f = f"
| "run (e # es) f = run es (fst (loop e f))"

text \<open>The state \<open>Off\<close>: no power, no transition in progress.\<close>

definition power_off :: "power_flags \<Rightarrow> bool" where
  "power_off f \<longleftrightarrow> \<not> gsmHasPower f \<and> \<not> isStarting f \<and> \<not> isStopping f"

text \<open>Views of the calls of a tick: their order, and those made while \<open>isStarting\<close> is set.\<close>

definition call_seq :: "orch \<Rightarrow> call list" where
  "call_seq s = map fst (calls s)"

definition starting_obs :: "orch \<Rightarrow> call list" where
  "starting_obs s = map fst (filter (\<lambda>x. isStarting (snd x)) (calls s))"

text \<open>The tick up to, and without, the deep-sleep check.\<close>

definition before_sleep :: "tick_env \<Rightarrow> power_flags \<Rightarrow> orch" where
  "before_sleep e f = gsm_processing e (stopping_gsm e (starting_gsm e (loop_head e
      \<lparr>gsmHasPower = gsmHasPower f, isStarting = isStarting f, isStopping = isStopping f,
         calls = []\<rparr>)))"

text \<open>Sample ticks, used to instantiate the theorems below.\<close>

definition tick_begin_fails :: tick_env where
  "tick_begin_fails = \<lparr>consoleCmds = [''AT''], isOtaActive = False, gsmPower_starting = True,
     begin_result = False, gsmPower_stopping = True, waitingForGps_processing = False,
     isSmsEnabled = True, isMqttEnabled = True, waitingForGps_sleep = False,
     waitingForMqtt = False, haveToSleep = False, isGsmActive = False\<rparr>"

definition tick_gps_pending :: tick_env where
  "tick_gps_pending = \<lparr>consoleCmds = [], isOtaActive = False, gsmPower_starting = True,
     begin_result = True, gsmPower_stopping = True, waitingForGps_processing = True,
     isSmsEnabled = True, isMqttEnabled = True, waitingForGps_sleep = True,
     waitingForMqtt = False, haveToSleep = True, isGsmActive = True\<rparr>"

definition tick_sleep :: tick_env where
  "tick_sleep = \<lparr>consoleCmds = [], isOtaActive = False, gsmPower_starting = True,
     begin_result = True, gsmPower_stopping = True, waitingForGps_processing = False,
     isSmsEnabled = False, isMqttEnabled = False, waitingForGps_sleep = False,
     waitingForMqtt = False, haveToSleep = True, isGsmActive = True\<rparr>"

definition flags_off :: power_flags where
  "flags_off = \<lparr>gsmHasPower = False, isStarting = False, isStopping = False\<rparr>"

definition flags_powered :: power_flags where
  "flags_powered = \<lparr>gsmHasPower = True, isStarting = False, isStopping = False\<rparr>"

section \<open>Properties of the debounce checks\<close>

text \<open>
  Claim C10. The check without update never changes \<open>lastCheckSec\<close>: for every current
  time, every \<open>lastCheckSec\<close> and every interval its content after \<open>secondsElapsed\<close> is its
  content before, whatever the call returns. \<open>secondsElapsedAndUpdate\<close> is the one that
  writes: it stores the current time exactly when it returns true.
\<close>

theorem secondsElapsed_frame:
  "snd (secondsElapsed currentSec lastCheckSec intervalSec) = lastCheckSec \<and>
   snd (secondsElapsedAndUpdate currentSec lastCheckSec intervalSec) =
     (if fst (secondsElapsedAndUpdate currentSec lastCheckSec intervalSec)
      then currentSec else lastCheckSec)"
  by (simp add: secondsElapsed_def secondsElapsedAndUpdate_def)

text \<open>
  Claim C7 as stated fails. At current time 0 the update stores 0, which is the value
  that means "never checked", and the next call returns true again; and with a negative
  interval the difference 0 already exceeds the interval.
\<close>

theorem debounce_counterexample:
  "fst (secondsElapsedAndUpdate 0 0 10) \<and>
   fst (secondsElapsedAndUpdate 0 (snd (secondsElapsedAndUpdate 0 0 10)) 10) \<and>
   fst (secondsElapsedAndUpdate 5 0 (- 1)) \<and>
   fst (secondsElapsedAndUpdate 5 (snd (secondsElapsedAndUpdate 5 0 (- 1))) (- 1))"
  by (simp add: secondsElapsedAndUpdate_def word_sless_alt)

text \<open>
  Claim C7, amended. With \<open>lastCheckSec = 0\<close>, \<open>secondsElapsed\<close> returns true for every
  interval. After \<open>secondsElapsedAndUpdate\<close> has returned true, the next call at the same
  current time with the same interval (with or without update) returns false exactly when
  the current time is not 0 and the interval is not negative.
\<close>

theorem debounce_amended:
  "fst (secondsElapsed currentSec 0 intervalSec) \<and>
   (secondsElapsedAndUpdate currentSec lastCheckSec intervalSec = (True, lastCheckSec') \<longrightarrow>
      (fst (secondsElapsedAndUpdate currentSec lastCheckSec' intervalSec)
         \<longleftrightarrow> currentSec = 0 \<or> intervalSec <s 0) \<and>
      (fst (secondsElapsed currentSec lastCheckSec' intervalSec)
         \<longleftrightarrow> currentSec = 0 \<or> intervalSec <s 0))"
  by (auto simp add: secondsElapsed_def secondsElapsedAndUpdate_def split: if_splits)

theorem debounce_amended_witness:
  "secondsElapsedAndUpdate 100 0 10 = (True, 100) \<and>
   \<not> fst (secondsElapsedAndUpdate 100 100 10) \<and> \<not> fst (secondsElapsed 100 100 10)"
proof -
  have h: "secondsElapsedAndUpdate 100 0 10 = (True, 100)"
    by (simp add: secondsElapsedAndUpdate_def)
  have "\<not> ((100 :: long) = 0 \<or> (10 :: long) <s 0)"
    by (simp add: word_sless_alt)
  with h debounce_amended [of 100 10 0 100] show ?thesis by blast
qed

section \<open>Properties of crc32\<close>

lemma crc32_loop_append:
  "crc32_loop crc (a @ b) = crc32_loop (crc32_loop crc a) b"
  by (induction a arbitrary: crc) simp_all

text \<open>
  Claim C2. Called with state 0 on the nine bytes of \<open>''123456789''\<close>, \<open>crc32\<close> returns
  \<open>0xF273791B\<close>, not the check value \<open>0xCBF43926\<close> of CRC-32: the accumulator is a signed
  \<^verbatim>\<open>long\<close>, so each shift brings the sign bit back in. The same loop on an unsigned
  accumulator gives the check value.
\<close>

theorem crc32_check_value:
  "crc32 0 (ascii ''123456789'') = 0xF273791B \<and>
   crc32 0 (ascii ''123456789'') \<noteq> 0xCBF43926 \<and>
   crc32_reference 0 (ascii ''123456789'') = 0xCBF43926"
proof -
  have code: "crc32 0 (ascii ''123456789'') = 0xF273791B"
    by code_simp
  have reference: "crc32_reference 0 (ascii ''123456789'') = 0xCBF43926"
    by code_simp
  show ?thesis
    by (simp add: code reference)
qed

text \<open>
  Claim C8 as stated fails: there are no buffers \<open>a\<close> and \<open>b\<close> for which the chained
  calls differ from the single pass.
\<close>

theorem crc32_chaining_counterexample:
  "\<not> (\<exists>a b. crc32 (crc32 0 a) b \<noteq> crc32 0 (a @ b))"
  by (simp add: crc32_def crc32_loop_append)

text \<open>
  Claim C8, amended. The complement taken at entry undoes the complement taken at the
  exit of the previous call, so passing the returned value on continues the checksum:
  for every state and all buffers, two chained calls return what one call on the
  concatenation returns.
\<close>

theorem crc32_chaining:
  "crc32 (crc32 crc a) b = crc32 crc (a @ b)"
  by (simp add: crc32_def crc32_loop_append)

section \<open>Properties of loop\<close>

lemma snapshot_sel [simp]:
  "gsmHasPower (snapshot s) = gsmHasPower s"
  "isStarting (snapshot s) = isStarting s"
  "isStopping (snapshot s) = isStopping s"
  by (simp_all add: snapshot_def)

lemma snapshot_upd [simp]:
  "snapshot (s\<lparr>calls := cs\<rparr>) = snapshot s"
  "snapshot (s\<lparr>gsmHasPower := b\<rparr>) = (snapshot s)\<lparr>gsmHasPower := b\<rparr>"
  "snapshot (s\<lparr>isStarting := b\<rparr>) = (snapshot s)\<lparr>isStarting := b\<rparr>"
  "snapshot (s\<lparr>isStopping := b\<rparr>) = (snapshot s)\<lparr>isStopping := b\<rparr>"
  by (simp_all add: snapshot_def)

lemma do_call_sel [simp]:
  "gsmHasPower (do_call c s) = gsmHasPower s"
  "isStarting (do_call c s) = isStarting s"
  "isStopping (do_call c s) = isStopping s"
  "calls (do_call c s) = calls s @ [(c, snapshot s)]"
  "snapshot (do_call c s) = snapshot s"
  by (simp_all add: do_call_def)

lemma snapshot_eq_sel:
  "snapshot s = snapshot t \<Longrightarrow>
   gsmHasPower s = gsmHasPower t \<and> isStarting s = isStarting t \<and> isStopping s = isStopping t"
  by (metis snapshot_sel)

subsection \<open>The flags through the blocks of a tick\<close>

lemma loop_head_snapshot [simp]: "snapshot (loop_head e s) = snapshot s"
  by (simp add: loop_head_def Let_def split: list.split)

lemma deep_sleep_snapshot [simp]: "snapshot (deep_sleep e s) = snapshot s"
  by (simp add: deep_sleep_def Let_def)

lemma loop_tail_snapshot [simp]: "snapshot (loop_tail s) = snapshot s"
  by (simp add: loop_tail_def)

lemma stopping_gsm_no_power: "\<not> gsmHasPower s \<Longrightarrow> stopping_gsm e s = s"
  by (simp add: stopping_gsm_def)

lemma gsm_processing_no_power: "\<not> gsmHasPower s \<Longrightarrow> gsm_processing e s = s"
  by (simp add: gsm_processing_def)

subsection \<open>Calls made while starting\<close>

lemma starting_obs_do_call [simp]:
  "starting_obs (do_call c s) = starting_obs s @ (if isStarting s then [c] else [])"
  by (simp add: starting_obs_def)

lemma starting_obs_upd [simp]:
  "starting_obs (s\<lparr>gsmHasPower := b\<rparr>) = starting_obs s"
  "starting_obs (s\<lparr>isStarting := b\<rparr>) = starting_obs s"
  "starting_obs (s\<lparr>isStopping := b\<rparr>) = starting_obs s"
  by (simp_all add: starting_obs_def)

lemma loop_head_starting_obs:
  "\<not> isStarting s \<Longrightarrow> starting_obs (loop_head e s) = starting_obs s"
  by (simp add: loop_head_def Let_def split: list.split)

lemma deep_sleep_starting_obs:
  "\<not> isStarting s \<Longrightarrow> starting_obs (deep_sleep e s) = starting_obs s"
  by (simp add: deep_sleep_def Let_def)

lemma loop_tail_starting_obs:
  "\<not> isStarting s \<Longrightarrow> starting_obs (loop_tail s) = starting_obs s"
  by (simp add: loop_tail_def)

lemma starting_gsm_failed:
  assumes "\<not> gsmHasPower s" "\<not> isStarting s" "\<not> isStopping s"
    and "gsmPower_starting e" "\<not> begin_result e"
  shows "snapshot (starting_gsm e s) = snapshot s"
    and "starting_obs (starting_gsm e s) =
           starting_obs s @ [GsmPowerOn, GsmBegin, GsmStop, GsmPowerOff]"
  using assms by (simp_all add: starting_gsm_def Let_def snapshot_def)

lemma loop_failed_begin:
  assumes "power_off f" "gsmPower_starting e" "\<not> begin_result e"
  shows "fst (loop e f) = f"
    and "map fst (filter (\<lambda>x. isStarting (snd x)) (snd (loop e f))) =
           [GsmPowerOn, GsmBegin, GsmStop, GsmPowerOff]"
proof -
  define s0 :: orch where "s0 = \<lparr>gsmHasPower = gsmHasPower f, isStarting = isStarting f,
                 isStopping = isStopping f, calls = []\<rparr>"
  define s1 where "s1 = loop_head e s0"
  define s2 where "s2 = starting_gsm e s1"
  have f0: "snapshot s0 = f" "starting_obs s0 = []"
    by (simp_all add: s0_def snapshot_def starting_obs_def)
  have off0: "\<not> gsmHasPower s0" "\<not> isStarting s0" "\<not> isStopping s0"
    using assms(1) by (simp_all add: s0_def power_off_def)
  have f1: "snapshot s1 = f" "starting_obs s1 = []"
    using off0 f0 by (simp_all add: s1_def loop_head_starting_obs)
  have off1: "\<not> gsmHasPower s1" "\<not> isStarting s1" "\<not> isStopping s1"
    using off0 snapshot_eq_sel [of s1 s0] f0 f1 by simp_all
  have f2: "snapshot s2 = f" "starting_obs s2 = [GsmPowerOn, GsmBegin, GsmStop, GsmPowerOff]"
    using starting_gsm_failed [OF off1 assms(2,3)] f1 by (simp_all add: s2_def)
  have off2: "\<not> gsmHasPower s2" "\<not> isStarting s2" "\<not> isStopping s2"
    using off0 snapshot_eq_sel [of s2 s0] f0 f2 by simp_all
  have l: "loop e f =
      (snapshot (loop_tail (deep_sleep e s2)), calls (loop_tail (deep_sleep e s2)))"
    using off2
    by (simp add: loop_def Let_def s0_def s1_def s2_def stopping_gsm_no_power
        gsm_processing_no_power)
  show "fst (loop e f) = f" using f2 by (simp add: l)
  have "starting_obs (loop_tail (deep_sleep e s2)) = starting_obs s2"
    using off2 snapshot_eq_sel [of "deep_sleep e s2" s2]
    by (simp add: loop_tail_starting_obs deep_sleep_starting_obs)
  then show "map fst (filter (\<lambda>x. isStarting (snd x)) (snd (loop e f))) =
      [GsmPowerOn, GsmBegin, GsmStop, GsmPowerOff]"
    using f2 by (simp add: l starting_obs_def)
qed

lemma run_failed_begin:
  "power_off f \<Longrightarrow> \<forall>e\<in>set es. gsmPower_starting e \<and> \<not> begin_result e \<Longrightarrow> run es f = f"
  by (induction es) (simp_all add: loop_failed_begin(1))


subsection \<open>The order of the calls of a tick\<close>

lemma call_seq_do_call [simp]: "call_seq (do_call c s) = call_seq s @ [c]"
  by (simp add: call_seq_def)

lemma call_seq_upd [simp]:
  "call_seq (s\<lparr>gsmHasPower := b\<rparr>) = call_seq s"
  "call_seq (s\<lparr>isStarting := b\<rparr>) = call_seq s"
  "call_seq (s\<lparr>isStopping := b\<rparr>) = call_seq s"
  by (simp_all add: call_seq_def)

lemma loop_head_call_seq:
  "set (call_seq (loop_head e s)) \<subseteq> set (call_seq s) \<union>
     {ReadVoltage, ReadValues, ConsoleIsEmpty, ConsoleRemoveHead, WebHandleClient, OtaHandle} \<union> range SendAT"
  by (auto simp add: loop_head_def Let_def split: list.split)

lemma starting_gsm_call_seq:
  "set (call_seq (starting_gsm e s)) \<subseteq> set (call_seq s) \<union> {GsmPowerOn, GsmBegin, GsmStop, GsmPowerOff}"
  by (auto simp add: starting_gsm_def Let_def)

lemma stopping_gsm_call_seq:
  "set (call_seq (stopping_gsm e s)) \<subseteq> set (call_seq s) \<union> {GsmStop, GsmPowerOff}"
  by (auto simp add: stopping_gsm_def Let_def)

lemma gsm_processing_call_seq:
  "set (call_seq (gsm_processing e s)) \<subseteq> set (call_seq s) \<union>
     {GsmHandleClient, WaitingForGps} \<union> (if waitingForGps_processing e then {} else {SmsHandleClient, MqttHandleClient})"
  by (auto simp add: gsm_processing_def Let_def)

lemma deep_sleep_call_seq:
  "call_seq (deep_sleep e s) = call_seq s @
     (if waitingForGps_sleep e then [WaitingForGps]
      else if waitingForMqtt e then [WaitingForGps, WaitingForMqtt]
      else if \<not> haveToSleep e then [WaitingForGps, WaitingForMqtt, HaveToSleep]
      else [WaitingForGps, WaitingForMqtt, HaveToSleep] @ (if isGsmActive e then [GsmStop] else []) @
           [GsmPowerOff, WifiDisconnect, WifiModeOff, Yield, DeepSleep])"
  by (simp add: deep_sleep_def Let_def)

lemma loop_tail_call_seq: "call_seq (loop_tail s) = call_seq s @ [Yield, Delay 10]"
  by (simp add: loop_tail_def)

lemma loop_calls: "map fst (snd (loop e f)) = call_seq (loop_tail (deep_sleep e (before_sleep e f)))"
  by (simp add: loop_def Let_def before_sleep_def call_seq_def)

lemma before_sleep_call_seq:
  "set (call_seq (before_sleep e f)) \<subseteq>
     {ReadVoltage, ReadValues, ConsoleIsEmpty, ConsoleRemoveHead, WebHandleClient, OtaHandle} \<union> range SendAT \<union>
     {GsmPowerOn, GsmBegin, GsmStop, GsmPowerOff} \<union> {GsmHandleClient, WaitingForGps} \<union>
     (if waitingForGps_processing e then {} else {SmsHandleClient, MqttHandleClient})"
proof -
  define s0 :: orch where "s0 = \<lparr>gsmHasPower = gsmHasPower f, isStarting = isStarting f,
    isStopping = isStopping f, calls = []\<rparr>"
  define A1 where "A1 = {ReadVoltage, ReadValues, ConsoleIsEmpty, ConsoleRemoveHead, WebHandleClient, OtaHandle} \<union> range SendAT"
  define A2 where "A2 = {GsmPowerOn, GsmBegin, GsmStop, GsmPowerOff}"
  define A3 where "A3 = {GsmStop, GsmPowerOff}"
  define A4 where "A4 = {GsmHandleClient, WaitingForGps} \<union>
     (if waitingForGps_processing e then {} else {SmsHandleClient, MqttHandleClient})"
  define s1 where "s1 = loop_head e s0"
  define s2 where "s2 = starting_gsm e s1"
  define s3 where "s3 = stopping_gsm e s2"
  have "call_seq s0 = []" by (simp add: call_seq_def s0_def)
  then have 1: "set (call_seq s1) \<subseteq> A1"
    using loop_head_call_seq [of e s0] by (simp add: s1_def A1_def)
  have "set (call_seq s2) \<subseteq> set (call_seq s1) \<union> A2"
    using starting_gsm_call_seq [of e s1] by (simp add: s2_def A2_def)
  with 1 have 2: "set (call_seq s2) \<subseteq> A1 \<union> A2" by blast
  have "A3 \<subseteq> A2" by (simp add: A3_def A2_def)
  moreover have "set (call_seq s3) \<subseteq> set (call_seq s2) \<union> A3"
    using stopping_gsm_call_seq [of e s2] by (simp add: s3_def A3_def)
  ultimately have 3: "set (call_seq s3) \<subseteq> A1 \<union> A2" using 2 by blast
  have "set (call_seq (gsm_processing e s3)) \<subseteq> set (call_seq s3) \<union> A4"
    using gsm_processing_call_seq [of e s3] by (simp add: A4_def Un_assoc)
  with 3 have "set (call_seq (gsm_processing e s3)) \<subseteq> A1 \<union> A2 \<union> A4" by blast
  then show ?thesis
    by (simp add: before_sleep_def s3_def s2_def s1_def s0_def A1_def A2_def A4_def Un_assoc)
qed

lemma before_sleep_not_later:
  "c \<in> {WaitingForMqtt, HaveToSleep, WifiDisconnect, WifiModeOff, DeepSleep, Yield} \<Longrightarrow>
   c \<notin> set (call_seq (before_sleep e f))"
  using before_sleep_call_seq [of e f] by (cases "waitingForGps_processing e") auto

lemma before_sleep_no_handlers:
  "waitingForGps_processing e \<Longrightarrow> c \<in> {SmsHandleClient, MqttHandleClient} \<Longrightarrow>
   c \<notin> set (call_seq (before_sleep e f))"
  using before_sleep_call_seq [of e f] by auto

text \<open>
  Claim C3. In a run of ticks that starts with the power off, in which
  \<^verbatim>\<open>myOptions.gsmPower\<close> is on and \<^verbatim>\<open>myGsmGps.begin()\<close> fails in every tick: the flags are
  back at \<open>Off\<close> at the end of every tick, and in every tick the calls made while
  \<open>isStarting\<close> is set are exactly power on, begin, stop, power off, in this order.
\<close>

theorem failed_begin_returns_to_off:
  assumes "power_off f" and "\<forall>e\<in>set es. gsmPower_starting e \<and> \<not> begin_result e"
  shows "(\<forall>k\<le>length es. power_off (run (take k es) f)) \<and>
         (\<forall>k<length es.
            map fst (filter (\<lambda>x. isStarting (snd x))
              (snd (loop (es ! k) (run (take k es) f)))) =
              [GsmPowerOn, GsmBegin, GsmStop, GsmPowerOff])"
proof -
  have r: "run (take k es) f = f" for k
    using assms by (intro run_failed_begin) (auto dest: in_set_takeD)
  show ?thesis using assms by (simp add: r loop_failed_begin(2))
qed

theorem failed_begin_returns_to_off_witness:
  "power_off flags_off \<and>
   gsmPower_starting tick_begin_fails \<and> \<not> begin_result tick_begin_fails \<and>
   power_off (run [tick_begin_fails] flags_off) \<and>
   power_off (run [tick_begin_fails, tick_begin_fails] flags_off) \<and>
   map fst (filter (\<lambda>x. isStarting (snd x))
     (snd (loop tick_begin_fails (run [tick_begin_fails] flags_off)))) =
     [GsmPowerOn, GsmBegin, GsmStop, GsmPowerOff]"
proof -
  have h1: "power_off flags_off" by (simp add: power_off_def flags_off_def)
  have h2: "\<forall>e\<in>set [tick_begin_fails, tick_begin_fails].
      gsmPower_starting e \<and> \<not> begin_result e"
    by (simp add: tick_begin_fails_def)
  note t = failed_begin_returns_to_off [OF h1 h2]
  from t have a: "power_off (run (take 1 [tick_begin_fails, tick_begin_fails]) flags_off)"
    and b: "power_off (run (take 2 [tick_begin_fails, tick_begin_fails]) flags_off)"
    by (auto simp del: run.simps take_Suc_Cons)
  from t have c: "map fst (filter (\<lambda>x. isStarting (snd x))
     (snd (loop ([tick_begin_fails, tick_begin_fails] ! 1)
        (run (take 1 [tick_begin_fails, tick_begin_fails]) flags_off)))) =
     [GsmPowerOn, GsmBegin, GsmStop, GsmPowerOff]"
    by (auto simp del: run.simps take_Suc_Cons)
  from a b c h1 h2 show ?thesis by simp
qed

text \<open>
  Claim C4. For every tick and all flags: when \<^verbatim>\<open>waitingForGps()\<close> answers true in the gsm
  processing, neither \<^verbatim>\<open>mySmsCmd.handleClient()\<close> nor \<^verbatim>\<open>myMqtt.handleClient()\<close> is called in
  the tick. When it answers true in the deep-sleep check, whatever the other answers are,
  the calls of the tick are those made before the deep-sleep check, then this one call of
  \<^verbatim>\<open>waitingForGps()\<close>, then the \<^verbatim>\<open>yield()\<close> and \<^verbatim>\<open>delay(10)\<close> that end \<^verbatim>\<open>loop()\<close>: the check
  makes no other call, so \<^verbatim>\<open>haveToSleep()\<close> is not asked and no step of the sleep sequence
  is made.
\<close>

theorem gps_pending_gating:
  "(waitingForGps_processing e \<longrightarrow>
      SmsHandleClient \<notin> set (map fst (snd (loop e f))) \<and>
      MqttHandleClient \<notin> set (map fst (snd (loop e f)))) \<and>
   (waitingForGps_sleep e \<longrightarrow>
      map fst (snd (loop e f)) =
        call_seq (before_sleep e f) @ [WaitingForGps, Yield, Delay 10] \<and>
      HaveToSleep \<notin> set (map fst (snd (loop e f))) \<and>
      WifiDisconnect \<notin> set (map fst (snd (loop e f))) \<and>
      WifiModeOff \<notin> set (map fst (snd (loop e f))) \<and>
      DeepSleep \<notin> set (map fst (snd (loop e f))))"
  by (simp add: loop_calls loop_tail_call_seq deep_sleep_call_seq before_sleep_not_later
      before_sleep_no_handlers)

theorem gps_pending_gating_witness:
  "waitingForGps_processing tick_gps_pending \<and> waitingForGps_sleep tick_gps_pending \<and>
   gsmHasPower flags_powered \<and> isSmsEnabled tick_gps_pending \<and>
   isMqttEnabled tick_gps_pending \<and> haveToSleep tick_gps_pending \<and>
   call_seq (before_sleep tick_gps_pending flags_powered) =
     [ReadVoltage, ReadValues, ConsoleIsEmpty, WebHandleClient, GsmHandleClient, WaitingForGps] \<and>
   map fst (snd (loop tick_gps_pending flags_powered)) =
     [ReadVoltage, ReadValues, ConsoleIsEmpty, WebHandleClient, GsmHandleClient, WaitingForGps,
      WaitingForGps, Yield, Delay 10] \<and>
   SmsHandleClient \<notin> set (map fst (snd (loop tick_gps_pending flags_powered))) \<and>
   MqttHandleClient \<notin> set (map fst (snd (loop tick_gps_pending flags_powered))) \<and>
   DeepSleep \<notin> set (map fst (snd (loop tick_gps_pending flags_powered)))"
proof -
  have b: "call_seq (before_sleep tick_gps_pending flags_powered) =
     [ReadVoltage, ReadValues, ConsoleIsEmpty, WebHandleClient, GsmHandleClient, WaitingForGps]"
    by (simp add: before_sleep_def loop_head_def starting_gsm_def stopping_gsm_def
        gsm_processing_def tick_gps_pending_def flags_powered_def call_seq_def)
  have h: "waitingForGps_processing tick_gps_pending" "waitingForGps_sleep tick_gps_pending"
    by (simp_all add: tick_gps_pending_def)
  from gps_pending_gating [of tick_gps_pending flags_powered] h
  have "map fst (snd (loop tick_gps_pending flags_powered)) =
        call_seq (before_sleep tick_gps_pending flags_powered) @ [WaitingForGps, Yield, Delay 10]"
    and "SmsHandleClient \<notin> set (map fst (snd (loop tick_gps_pending flags_powered)))"
    and "MqttHandleClient \<notin> set (map fst (snd (loop tick_gps_pending flags_powered)))"
    and "DeepSleep \<notin> set (map fst (snd (loop tick_gps_pending flags_powered)))"
    by blast+
  with b h show ?thesis
    by (simp add: tick_gps_pending_def flags_powered_def)
qed

text \<open>
  Claim C5. When the sleep decision fires (no GPS fix pending, no MQTT send pending,
  \<^verbatim>\<open>haveToSleep()\<close> true), the tick ends with: \<^verbatim>\<open>myGsmGps.stop()\<close> if \<^verbatim>\<open>isGsmActive\<close>, then
  \<^verbatim>\<open>myGsmPower.off()\<close>, \<^verbatim>\<open>WiFi.disconnect()\<close>, \<^verbatim>\<open>WiFi.mode(WIFI_OFF)\<close>, \<^verbatim>\<open>yield()\<close>,
  \<^verbatim>\<open>myDeepSleep.sleep()\<close>, in this order, and \<^verbatim>\<open>sleep()\<close> is not called earlier in the tick.
  When the decision does not fire, \<^verbatim>\<open>sleep()\<close> is not called at all. So the suspend is
  never entered with an active session that has not been stopped first.
\<close>

theorem deep_sleep_shutdown_order:
  "(\<not> waitingForGps_sleep e \<and> \<not> waitingForMqtt e \<and> haveToSleep e \<longrightarrow>
      (\<exists>pre. map fst (snd (loop e f)) =
          pre @ (if isGsmActive e then [GsmStop] else []) @
          [GsmPowerOff, WifiDisconnect, WifiModeOff, Yield, DeepSleep, Yield, Delay 10] \<and>
          DeepSleep \<notin> set pre)) \<and>
   (\<not> (\<not> waitingForGps_sleep e \<and> \<not> waitingForMqtt e \<and> haveToSleep e) \<longrightarrow>
      DeepSleep \<notin> set (map fst (snd (loop e f))))"
proof -
  have pre: "DeepSleep \<notin> set (call_seq (before_sleep e f))"
    by (simp add: before_sleep_not_later)
  show ?thesis
  proof (intro conjI impI)
    assume fires: "\<not> waitingForGps_sleep e \<and> \<not> waitingForMqtt e \<and> haveToSleep e"
    let ?pre = "call_seq (before_sleep e f) @ [WaitingForGps, WaitingForMqtt, HaveToSleep]"
    have "map fst (snd (loop e f)) = ?pre @ (if isGsmActive e then [GsmStop] else []) @
          [GsmPowerOff, WifiDisconnect, WifiModeOff, Yield, DeepSleep, Yield, Delay 10]"
      using fires by (simp add: loop_calls loop_tail_call_seq deep_sleep_call_seq)
    moreover have "DeepSleep \<notin> set ?pre" using pre by simp
    ultimately show "\<exists>pre. map fst (snd (loop e f)) =
          pre @ (if isGsmActive e then [GsmStop] else []) @
          [GsmPowerOff, WifiDisconnect, WifiModeOff, Yield, DeepSleep, Yield, Delay 10] \<and>
          DeepSleep \<notin> set pre"
      by blast
  next
    assume "\<not> (\<not> waitingForGps_sleep e \<and> \<not> waitingForMqtt e \<and> haveToSleep e)"
    then show "DeepSleep \<notin> set (map fst (snd (loop e f)))"
      using pre by (auto simp add: loop_calls loop_tail_call_seq deep_sleep_call_seq)
  qed
qed

theorem deep_sleep_shutdown_order_witness:
  "\<not> waitingForGps_sleep tick_sleep \<and> \<not> waitingForMqtt tick_sleep \<and> haveToSleep tick_sleep \<and>
   isGsmActive tick_sleep \<and>
   (\<exists>pre. map fst (snd (loop tick_sleep flags_powered)) =
      pre @ [GsmStop, GsmPowerOff, WifiDisconnect, WifiModeOff, Yield, DeepSleep, Yield, Delay 10] \<and>
      DeepSleep \<notin> set pre)"
  using deep_sleep_shutdown_order [of tick_sleep flags_powered]
  by (simp add: tick_sleep_def)


section \<open>Properties of the String functions\<close>

lemma strstr_single:
  "strstr s [c] = (if c \<in> set s then Some (length (takeWhile (\<lambda>x. x \<noteq> c) s)) else None)"
  by (induction s) auto

lemma indexOf_single:
  "indexOf s [c] fromIndex =
     (if fromIndex < length s \<and> c \<in> set (drop fromIndex s)
      then int (fromIndex + length (takeWhile (\<lambda>x. x \<noteq> c) (drop fromIndex s))) else - 1)"
  by (auto simp add: indexOf_def strstr_single)

lemma takeWhile_neq_append:
  "c \<notin> set a \<Longrightarrow> takeWhile (\<lambda>x. x \<noteq> c) (a @ c # r) = a"
  by (induction a) auto

lemma length_takeWhile_neq:
  "c \<in> set xs \<Longrightarrow> length (takeWhile (\<lambda>x. x \<noteq> c) xs) < length xs"
  by (induction xs) auto

lemma takeWhile_neq_notin:
  "c \<notin> set (takeWhile (\<lambda>x. x \<noteq> c) xs)"
  by (induction xs) auto

lemma indexOf_first:
  "c \<notin> set a \<Longrightarrow> indexOf (a @ c # r) [c] 0 = int (length a)"
  by (simp add: indexOf_single takeWhile_neq_append)

lemma indexOf_next:
  "c \<notin> set m \<Longrightarrow> indexOf (a @ b # m @ c # r) [c] (Suc (length a)) = int (length a + 1 + length m)"
  by (simp add: indexOf_single takeWhile_neq_append)

lemma indexOf_found:
  assumes "indexOf s [c] fromIndex \<noteq> - 1"
  shows "\<exists>k. indexOf s [c] fromIndex = int k \<and> fromIndex \<le> k \<and> k < length s \<and> s ! k = c \<and>
             c \<notin> set (take (k - fromIndex) (drop fromIndex s))"
proof -
  let ?d = "drop fromIndex s"
  let ?n = "length (takeWhile (\<lambda>x. x \<noteq> c) ?d)"
  from assms have f: "fromIndex < length s" and m: "c \<in> set ?d"
    and i: "indexOf s [c] fromIndex = int (fromIndex + ?n)"
    by (auto simp add: indexOf_single split: if_splits)
  from m have n: "?n < length ?d"
    by (rule length_takeWhile_neq)
  then have "?d ! ?n = c"
    using nth_length_takeWhile [of "\<lambda>x. x \<noteq> c" ?d] by simp
  with n f have "s ! (fromIndex + ?n) = c" by simp
  moreover have "c \<notin> set (take ?n ?d)"
    using takeWhile_neq_notin [of c ?d] by (simp add: takeWhile_eq_take [symmetric])
  ultimately show ?thesis using i n by (intro exI [of _ "fromIndex + ?n"]) simp
qed

lemma substring_eq:
  "left \<le> right \<Longrightarrow> substring s left right = take (right - left) (drop left s)"
  by (simp add: substring_def Let_def min_def)

lemma count_list_drop_le: "count_list (drop n xs) c \<le> count_list xs c"
proof (induction xs arbitrary: n)
  case Nil
  then show ?case by simp
next
  case (Cons x xs)
  show ?case
  proof (cases n)
    case 0
    then show ?thesis by simp
  next
    case (Suc k)
    with Cons [of k] show ?thesis by (simp add: le_SucI)
  qed
qed

lemma count_list_remove_chars: "count_list (remove_chars s i n) c \<le> count_list s c"
proof -
  have "count_list s c = count_list (take i s) c + count_list (drop i s) c"
    by (metis append_take_drop_id count_list_append)
  then have "count_list (take i s @ drop (i + k) s) c \<le> count_list s c" for k
    using count_list_drop_le [of k "drop i s" c] by (simp add: add.commute)
  then show ?thesis by (simp add: remove_chars_def Let_def)
qed

lemma count_list_Trim_left: "count_list (Trim_left chars ret i) c \<le> count_list ret c"
proof (induction chars ret i rule: Trim_left.induct)
  case (1 chars ret i)
  show ?case
  proof (cases "i < length ret \<and> indexOf_char chars (charAt ret i) 0 \<noteq> - 1")
    case True
    then have "count_list (Trim_left chars (remove_chars ret i 1) i) c \<le> count_list (remove_chars ret i 1) c"
      using "1.IH" by simp
    also have "\<dots> \<le> count_list ret c" by (rule count_list_remove_chars)
    finally show ?thesis using True by (subst Trim_left.simps) simp
  next
    case False
    then show ?thesis by (subst Trim_left.simps) auto
  qed
qed

lemma count_list_Trim_right: "count_list (Trim_right chars ret i) c \<le> count_list ret c"
proof (induction chars ret i rule: Trim_right.induct)
  case (1 chars ret i)
  show ?case
  proof (cases "i \<ge> 0 \<and> indexOf_char chars (charAt ret (nat i)) 0 \<noteq> - 1")
    case True
    then have "count_list (Trim_right chars (remove_chars ret (nat i) 1) (i - 1)) c
        \<le> count_list (remove_chars ret (nat i) 1) c"
      using "1.IH" by simp
    also have "\<dots> \<le> count_list ret c" by (rule count_list_remove_chars)
    finally show ?thesis using True by (subst Trim_right.simps) simp
  next
    case False
    then show ?thesis by (subst Trim_right.simps) auto
  qed
qed

lemma count_list_Trim: "count_list (Trim data chars) c \<le> count_list data c"
  unfolding Trim_def
  by (rule order_trans [OF count_list_Trim_right count_list_Trim_left])

lemma indexOf_char_space:
  "indexOf_char '' '' c 0 = (if c = CHR '' '' then 0 else if c = CHR 0x00 then 1 else - 1)"
  by (simp add: indexOf_char_def)

lemma Trim_unchanged:
  assumes "t \<noteq> []" and "hd t \<noteq> CHR '' ''" "hd t \<noteq> CHR 0x00"
    and "last t \<noteq> CHR '' ''" "last t \<noteq> CHR 0x00"
  shows "Trim t '' '' = t"
proof -
  have "charAt t 0 = hd t" using assms(1) by (simp add: charAt_def hd_conv_nth)
  then have l: "Trim_left '' '' t 0 = t"
    using assms by (subst Trim_left.simps) (simp add: indexOf_char_space)
  have "nat (int (length t) - 1) = length t - 1" by simp
  moreover have "length t - 1 < length t" using assms(1) by simp
  ultimately have "charAt t (nat (int (length t) - 1)) = last t"
    using assms(1) by (simp add: charAt_def last_conv_nth)
  then have "Trim_right '' '' t (int (length t) - 1) = t"
    using assms by (subst Trim_right.simps) (simp add: indexOf_char_space)
  with l show ?thesis by (simp add: Trim_def)
qed

section \<open>scanInterval on a text split at its separators\<close>

lemma substring_head: "substring (a @ b) 0 (length a) = a"
  by (simp add: substring_eq)

lemma substring_mid: "substring (a @ b @ c) (length a) (length a + length b) = b"
  by (simp add: substring_eq)

lemma substring_tail: "substring (a @ b) (length a) (length (a @ b)) = b"
  by (simp add: substring_eq)

lemma indexOf_not_before:
  assumes "c \<notin> set a"
  shows "\<not> (indexOf (a @ r) [c] 0 \<noteq> - 1 \<and> indexOf (a @ r) [c] 0 < int (length a))"
proof
  assume h: "indexOf (a @ r) [c] 0 \<noteq> - 1 \<and> indexOf (a @ r) [c] 0 < int (length a)"
  then obtain k where k: "indexOf (a @ r) [c] 0 = int k" "(a @ r) ! k = c"
    using indexOf_found [of "a @ r" c 0] by blast
  with h have "k < length a" by simp
  with k have "a ! k = c" by (simp add: nth_append)
  with \<open>k < length a\<close> assms show False by (metis nth_mem)
qed

lemma scanInterval_at:
  assumes "Trim t '' '' = i"
    and "indexOf i '':'' 0 = int f"
    and "indexOf i '':'' (Suc f) = int g"
    and "daysString = (if indexOf i '' '' 0 \<noteq> - 1 \<and> indexOf i '' '' 0 < int f
                       then substring i 0 (nat (indexOf i '' '' 0)) else [])"
    and "hoursString = (if indexOf i '' '' 0 \<noteq> - 1 \<and> indexOf i '' '' 0 < int f
                        then substring i (nat (indexOf i '' '' 0 + 1)) f
                        else substring i 0 f)"
    and "minutesString = substring i (Suc f) g"
    and "secondsString = substring i (Suc g) (length i)"
  shows "scanInterval t secs =
     (if 0 \<le>s atol daysString \<and>
         0 \<le>s atol hoursString \<and> atol hoursString \<le>s 23 \<and>
         0 \<le>s atol minutesString \<and> atol minutesString \<le>s 59 \<and>
         0 \<le>s atol secondsString \<and> atol secondsString \<le>s 59
      then (True, 0 + atol daysString * 24 * 60 * 60 + atol hoursString * 60 * 60 +
                  atol minutesString * 60 + atol secondsString)
      else (False, secs))"
proof -
  have n: "nat (int f + 1) = Suc f" "nat (int g + 1) = Suc g" by simp_all
  show ?thesis
    unfolding scanInterval_def Let_def assms(1,2) n assms(3) nat_int
      assms(4-7) [symmetric]
    by simp
qed

lemma scanInterval_hms:
  assumes trim: "Trim t '' '' = h @ '':'' @ m @ '':'' @ x"
    and h: "CHR '':'' \<notin> set h" "CHR '' '' \<notin> set h"
    and m: "CHR '':'' \<notin> set m"
  shows "scanInterval t secs =
     (if 0 \<le>s atol [] \<and>
         0 \<le>s atol h \<and> atol h \<le>s 23 \<and>
         0 \<le>s atol m \<and> atol m \<le>s 59 \<and>
         0 \<le>s atol x \<and> atol x \<le>s 59
      then (True, 0 + atol [] * 24 * 60 * 60 + atol h * 60 * 60 + atol m * 60 + atol x)
      else (False, secs))"
proof -
  let ?i = "h @ CHR '':'' # m @ CHR '':'' # x"
  let ?f = "length h"
  let ?g = "length h + 1 + length m"
  have i: "Trim t '' '' = ?i" using trim by simp
  have first: "indexOf ?i '':'' 0 = int ?f"
    using h(1) by (rule indexOf_first)
  have second: "indexOf ?i '':'' (Suc ?f) = int ?g"
    using m by (rule indexOf_next)
  have space: "\<not> (indexOf ?i '' '' 0 \<noteq> - 1 \<and> indexOf ?i '' '' 0 < int ?f)"
    using indexOf_not_before [OF h(2), of "CHR '':'' # m @ CHR '':'' # x"] by simp
  have hours: "substring ?i 0 ?f = h"
    by (rule substring_head)
  have minutes: "substring ?i (Suc ?f) ?g = m"
    using substring_mid [of "h @ '':''" m "CHR '':'' # x"] by simp
  have seconds: "substring ?i (Suc ?g) (length ?i) = x"
    using substring_tail [of "h @ '':'' @ m @ '':''" x] by simp
  show ?thesis
    by (rule scanInterval_at [OF i first second])
      (simp_all only: space if_False hours minutes seconds)
qed

lemma scanInterval_dhms:
  assumes trim: "Trim t '' '' = d @ '' '' @ h @ '':'' @ m @ '':'' @ x"
    and d: "CHR '':'' \<notin> set d" "CHR '' '' \<notin> set d"
    and h: "CHR '':'' \<notin> set h"
    and m: "CHR '':'' \<notin> set m"
  shows "scanInterval t secs =
     (if 0 \<le>s atol d \<and>
         0 \<le>s atol h \<and> atol h \<le>s 23 \<and>
         0 \<le>s atol m \<and> atol m \<le>s 59 \<and>
         0 \<le>s atol x \<and> atol x \<le>s 59
      then (True, 0 + atol d * 24 * 60 * 60 + atol h * 60 * 60 + atol m * 60 + atol x)
      else (False, secs))"
proof -
  let ?a = "d @ CHR '' '' # h"
  let ?i = "?a @ CHR '':'' # m @ CHR '':'' # x"
  let ?f = "length ?a"
  let ?g = "length ?a + 1 + length m"
  have i: "Trim t '' '' = ?i" using trim by simp
  have a: "CHR '':'' \<notin> set ?a" using d(1) h by simp
  have first: "indexOf ?i '':'' 0 = int ?f"
    using a by (rule indexOf_first)
  have second: "indexOf ?i '':'' (Suc ?f) = int ?g"
    using m by (rule indexOf_next)
  have "indexOf (d @ CHR '' '' # (h @ CHR '':'' # m @ CHR '':'' # x)) '' '' 0 = int (length d)"
    using d(2) by (rule indexOf_first)
  then have space: "indexOf ?i '' '' 0 = int (length d)" by simp
  have lt: "int (length d) \<noteq> - 1 \<and> int (length d) < int ?f" by simp
  have days: "substring ?i 0 (nat (int (length d))) = d"
    using substring_head [of d "CHR '' '' # h @ CHR '':'' # m @ CHR '':'' # x"] by simp
  have n: "nat (int (length d) + 1) = Suc (length d)" by simp
  have hours: "substring ?i (nat (int (length d) + 1)) ?f = h"
    unfolding n using substring_mid [of "d @ '' ''" h "CHR '':'' # m @ CHR '':'' # x"] by simp
  have minutes: "substring ?i (Suc ?f) ?g = m"
    using substring_mid [of "?a @ '':''" m "CHR '':'' # x"] by (simp add: add.assoc)
  have seconds: "substring ?i (Suc ?g) (length ?i) = x"
    using substring_tail [of "?a @ '':'' @ m @ '':''" x] by (simp add: add.assoc)
  show ?thesis
  proof (rule scanInterval_at [OF i first second])
    show "d = (if indexOf ?i '' '' 0 \<noteq> - 1 \<and> indexOf ?i '' '' 0 < int ?f
               then substring ?i 0 (nat (indexOf ?i '' '' 0)) else [])"
      unfolding space using lt days by simp
    show "h = (if indexOf ?i '' '' 0 \<noteq> - 1 \<and> indexOf ?i '' '' 0 < int ?f
               then substring ?i (nat (indexOf ?i '' '' 0 + 1)) ?f
               else substring ?i 0 ?f)"
      unfolding space using lt hours by simp
    show "m = substring ?i (Suc ?f) ?g" using minutes by simp
    show "x = substring ?i (Suc ?g) (length ?i)" using seconds by simp
  qed
qed

section \<open>Properties of atol and sprintf\<close>

lemma isdigit_not_separator:
  "isdigit c \<Longrightarrow> c \<noteq> CHR '':'' \<and> c \<noteq> CHR '' '' \<and> c \<noteq> CHR ''-'' \<and> c \<noteq> CHR ''+'' \<and>
     c \<noteq> CHR 0x00 \<and> \<not> isspace c"
  by (auto simp add: isdigit_def isspace_def)

lemma isdigit_char_of: "0 \<le> k \<Longrightarrow> k < 10 \<Longrightarrow> isdigit (char_of (48 + k :: int))"
  by (simp add: isdigit_def)

lemma of_char_digit: "0 \<le> k \<Longrightarrow> k < 10 \<Longrightarrow> of_char (char_of (48 + k :: int)) = 48 + k"
  by simp

lemma dec_nonempty: "dec n \<noteq> []"
  by (subst dec.simps) simp

lemma dec_digits: "0 \<le> n \<Longrightarrow> c \<in> set (dec n) \<Longrightarrow> isdigit c"
proof (induction n arbitrary: c rule: dec.induct)
  case (1 n)
  show ?case
  proof (cases "n < 10")
    case True
    with "1.prems" show ?thesis
      by (subst (asm) dec.simps) (simp add: isdigit_char_of)
  next
    case False
    with "1.prems" have "c \<in> set (dec (n div 10)) \<or> c = char_of (48 + n mod 10)"
      by (subst (asm) dec.simps) auto
    moreover have "isdigit (char_of (48 + n mod 10))"
      by (rule isdigit_char_of) simp_all
    moreover have "0 \<le> n div 10" using "1.prems" by simp
    ultimately show ?thesis using "1.IH" [OF False] by blast
  qed
qed

lemma digits_value_snoc:
  "\<forall>x\<in>set xs. isdigit x \<Longrightarrow> isdigit c \<Longrightarrow>
   digits_value acc (xs @ [c]) = digits_value acc xs * 10 + (of_char c - 48)"
  by (induction xs arbitrary: acc) simp_all

lemma digits_value_dec: "0 \<le> n \<Longrightarrow> digits_value 0 (dec n) = n"
proof (induction n rule: dec.induct)
  case (1 n)
  show ?case
  proof (cases "n < 10")
    case True
    with "1.prems" show ?thesis
      by (subst dec.simps) (simp add: isdigit_char_of)
  next
    case False
    have d: "isdigit (char_of (48 + n mod 10))"
      by (rule isdigit_char_of) simp_all
    have "0 \<le> n div 10" using "1.prems" by simp
    then have ih: "digits_value 0 (dec (n div 10)) = n div 10"
      and all: "\<forall>x\<in>set (dec (n div 10)). isdigit x"
      using "1.IH" [OF False] dec_digits by blast+
    have "digits_value 0 (dec n) = digits_value 0 (dec (n div 10) @ [char_of (48 + n mod 10)])"
      using False by (subst dec.simps) simp
    also have "\<dots> = n div 10 * 10 + n mod 10"
      using digits_value_snoc [OF all d, of 0] ih by simp
    finally show ?thesis by simp
  qed
qed

lemma atol_Nil: "atol [] = 0"
  by (simp add: atol_def)

lemma atol_digits:
  assumes "s \<noteq> []" and "\<forall>c\<in>set s. isdigit c" and "digits_value 0 s \<le> 2147483647"
  shows "atol s = word_of_int (digits_value 0 s)"
proof -
  from assms(1,2) have "isdigit (hd s)" by simp
  then have "\<not> isspace (hd s)" "hd s \<noteq> CHR ''-''" "hd s \<noteq> CHR ''+''"
    using isdigit_not_separator by blast+
  moreover from this(1) assms(1) have "dropWhile isspace s = s"
    by (cases s) simp_all
  ultimately show ?thesis using assms(1,3) by (simp add: atol_def Let_def)
qed

lemma fmt_02d_digits:
  assumes "0 \<le> k"
  shows "fmt_02d k \<noteq> []" and "\<forall>c\<in>set (fmt_02d k). isdigit c"
    and "digits_value 0 (fmt_02d k) = k"
proof -
  have z: "isdigit CHR ''0''" by (simp add: isdigit_def)
  show "fmt_02d k \<noteq> []" using assms by (simp add: fmt_02d_def fmt_d_def dec_nonempty)
  show "\<forall>c\<in>set (fmt_02d k). isdigit c"
    using assms z dec_digits [OF assms] by (auto simp add: fmt_02d_def fmt_d_def)
  show "digits_value 0 (fmt_02d k) = k"
    using assms z by (simp add: fmt_02d_def fmt_d_def digits_value_dec)
qed

lemma atol_fmt_02d:
  "0 \<le> k \<Longrightarrow> k \<le> 2147483647 \<Longrightarrow> atol (fmt_02d k) = word_of_int k"
  using fmt_02d_digits [of k] atol_digits [of "fmt_02d k"] by simp

lemma atol_dec:
  "0 \<le> k \<Longrightarrow> k \<le> 2147483647 \<Longrightarrow> atol (dec k) = word_of_int k"
  using atol_digits [of "dec k"] dec_digits [of k] by (simp add: dec_nonempty digits_value_dec)

lemma fmt_02d_no_separator:
  "0 \<le> k \<Longrightarrow> CHR '':'' \<notin> set (fmt_02d k) \<and> CHR '' '' \<notin> set (fmt_02d k)"
  using fmt_02d_digits(2) [of k] isdigit_not_separator by blast

lemma dec_no_separator:
  "0 \<le> k \<Longrightarrow> CHR '':'' \<notin> set (dec k) \<and> CHR '' '' \<notin> set (dec k)"
  using dec_digits [of k] isdigit_not_separator by blast

section \<open>Properties of the arithmetic on long\<close>

lemma sint_long_of_int:
  "- 2147483648 \<le> k \<Longrightarrow> k \<le> 2147483647 \<Longrightarrow> sint (word_of_int k :: long) = k"
  by (simp add: sint_sbintrunc' signed_take_bit_int_eq_self)

lemma sint_long_bounds: "- 2147483648 \<le> sint (a :: long) \<and> sint a \<le> 2147483647"
  using sint_ge [of a] sint_lt [of a] by simp

lemma sint_long_div:
  assumes "0 \<le> sint a" and "0 < sint b"
  shows "sint (long_div a b) = sint a div sint b"
proof -
  have e: "sint a sdiv sint b = sint a div sint b"
    using assms by (simp add: signed_divide_int_def sgn_if)
  have "0 \<le> sint a div sint b" using assms by (simp add: pos_imp_zdiv_nonneg_iff)
  moreover have "sint a div sint b \<le> sint a"
  proof -
    have "sint a div sint b * 1 \<le> sint a div sint b * sint b"
      using assms by (intro mult_left_mono) (simp_all add: pos_imp_zdiv_nonneg_iff)
    moreover have "sint a div sint b * sint b + sint a mod sint b = sint a" by simp
    moreover have "0 \<le> sint a mod sint b" using assms by simp
    ultimately show ?thesis by linarith
  qed
  ultimately show ?thesis
    using sint_long_bounds [of a] by (simp add: long_div_def e sint_long_of_int)
qed

lemma sint_long_mod:
  assumes "0 \<le> sint a" and "0 < sint b"
  shows "sint (long_mod a b) = sint a mod sint b"
proof -
  have e: "sint a smod sint b = sint a mod sint b"
    using assms by (simp add: signed_modulo_int_def signed_divide_int_def sgn_if minus_div_mult_eq_mod)
  have "0 \<le> sint a mod sint b" using assms by simp
  moreover have "sint a mod sint b \<le> sint a"
    using assms by (simp add: zmod_le_nonneg_dividend)
  ultimately show ?thesis
    using sint_long_bounds [of a] by (simp add: long_mod_def e sint_long_of_int)
qed

section \<open>formatInterval followed by scanInterval\<close>

lemma long_in_range:
  "0 \<le> k \<Longrightarrow> k \<le> 2147483647 \<Longrightarrow> 0 \<le>s (word_of_int k :: long)"
  "0 \<le> k \<Longrightarrow> k \<le> 23 \<Longrightarrow> (word_of_int k :: long) \<le>s 23"
  "0 \<le> k \<Longrightarrow> k \<le> 59 \<Longrightarrow> (word_of_int k :: long) \<le>s 59"
  by (simp_all add: word_sle_eq sint_long_of_int)

lemma long_sum:
  "0 + (word_of_int D :: long) * 24 * 60 * 60 + word_of_int H * 60 * 60 + word_of_int M * 60 +
     word_of_int S = word_of_int (D * 86400 + H * 3600 + M * 60 + S)"
  by simp

lemma formatInterval_nonneg:
  assumes "0 \<le> sint secs"
  shows "formatInterval secs =
     (if sint secs div 60 div 60 div 24 \<le> 0
      then fmt_02d (sint secs div 60 div 60 mod 24) @ '':'' @
           fmt_02d (sint secs div 60 mod 60) @ '':'' @ fmt_02d (sint secs mod 60)
      else fmt_d (sint secs div 60 div 60 div 24) @ '' '' @
           fmt_02d (sint secs div 60 div 60 mod 24) @ '':'' @
           fmt_02d (sint secs div 60 mod 60) @ '':'' @ fmt_02d (sint secs mod 60))"
proof -
  have c: "sint (60 :: long) = 60" "sint (24 :: long) = 24" by simp_all
  have q1: "sint (long_div secs 60) = sint secs div 60"
    using assms by (simp add: sint_long_div c)
  then have p1: "0 \<le> sint (long_div secs 60)"
    using assms by (simp add: pos_imp_zdiv_nonneg_iff)
  have q2: "sint (long_div (long_div secs 60) 60) = sint secs div 60 div 60"
    using p1 by (simp add: sint_long_div c q1)
  then have p2: "0 \<le> sint (long_div (long_div secs 60) 60)"
    using p1 q1 by (simp add: pos_imp_zdiv_nonneg_iff)
  have d: "sint (long_div (long_div (long_div secs 60) 60) 24) = sint secs div 60 div 60 div 24"
    using p2 by (simp add: sint_long_div c q2)
  have h: "sint (long_mod (long_div (long_div secs 60) 60) 24) = sint secs div 60 div 60 mod 24"
    using p2 by (simp add: sint_long_mod c q2)
  have m: "sint (long_mod (long_div secs 60) 60) = sint secs div 60 mod 60"
    using p1 by (simp add: sint_long_mod c q1)
  have s: "sint (long_mod secs 60) = sint secs mod 60"
    using assms by (simp add: sint_long_mod c)
  show ?thesis
    by (simp only: formatInterval_def Let_def word_sle_eq d h m s sint_0)
qed

lemma Trim_between_digits:
  assumes "a \<noteq> []" "\<forall>c\<in>set a. isdigit c" "z \<noteq> []" "\<forall>c\<in>set z. isdigit c"
  shows "Trim (a @ r @ z) '' '' = a @ r @ z"
proof (rule Trim_unchanged)
  show "a @ r @ z \<noteq> []" using assms(1) by simp
  have "isdigit (hd a)" using assms(1,2) by simp
  moreover have "hd (a @ r @ z) = hd a" using assms(1) by simp
  ultimately show "hd (a @ r @ z) \<noteq> CHR '' ''" "hd (a @ r @ z) \<noteq> CHR 0x00"
    using isdigit_not_separator [of "hd a"] by simp_all
  have "isdigit (last z)" using assms(3,4) by simp
  moreover have "last (a @ r @ z) = last z" using assms(3) by simp
  ultimately show "last (a @ r @ z) \<noteq> CHR '' ''" "last (a @ r @ z) \<noteq> CHR 0x00"
    using isdigit_not_separator [of "last z"] by simp_all
qed

lemma scanInterval_formatInterval:
  assumes "0 \<le> sint secs"
  shows "scanInterval (formatInterval secs) old = (True, secs)"
proof -
  define n where "n = sint secs"
  define D where "D = n div 60 div 60 div 24"
  define H where "H = n div 60 div 60 mod 24"
  define M where "M = n div 60 mod 60"
  define S where "S = n mod 60"
  have n: "0 \<le> n" "n \<le> 2147483647"
    using assms sint_long_bounds [of secs] by (simp_all add: n_def)
  have H: "0 \<le> H" "H \<le> 23" and M: "0 \<le> M" "M \<le> 59" and S: "0 \<le> S" "S \<le> 59"
    by (simp_all add: H_def M_def S_def)
  have D0: "0 \<le> D" using n by (simp add: D_def pos_imp_zdiv_nonneg_iff)
  have "n = n div 60 * 60 + n mod 60" "n div 60 = n div 60 div 60 * 60 + n div 60 mod 60"
    "n div 60 div 60 = n div 60 div 60 div 24 * 24 + n div 60 div 60 mod 24"
    by simp_all
  then have sum: "D * 86400 + H * 3600 + M * 60 + S = n"
    unfolding D_def H_def M_def S_def by linarith
  with D0 H M S n have D1: "D \<le> 2147483647" by linarith
  have total: "(word_of_int (D * 86400 + H * 3600 + M * 60 + S) :: long) = secs"
    by (simp add: sum n_def)
  let ?hms = "fmt_02d H @ '':'' @ fmt_02d M @ '':'' @ fmt_02d S"
  have fmt: "formatInterval secs = (if D \<le> 0 then ?hms else fmt_d D @ '' '' @ ?hms)"
    using formatInterval_nonneg [OF assms] by (simp add: D_def H_def M_def S_def n_def)
  have aH: "atol (fmt_02d H) = word_of_int H" and aM: "atol (fmt_02d M) = word_of_int M"
    and aS: "atol (fmt_02d S) = word_of_int S"
    using H M S by (simp_all add: atol_fmt_02d)
  have rH: "0 \<le>s (word_of_int H :: long)" "(word_of_int H :: long) \<le>s 23"
    and rM: "0 \<le>s (word_of_int M :: long)" "(word_of_int M :: long) \<le>s 59"
    and rS: "0 \<le>s (word_of_int S :: long)" "(word_of_int S :: long) \<le>s 59"
    using H M S by (simp_all add: long_in_range)
  show ?thesis
  proof (cases "D \<le> 0")
    case True
    with D0 have D: "D = 0" by simp
    have t: "formatInterval secs = ?hms" using True fmt by simp
    have trim: "Trim ?hms '' '' = ?hms"
      using Trim_between_digits [OF fmt_02d_digits(1,2) [OF H(1)] fmt_02d_digits(1,2) [OF S(1)],
          of "'':'' @ fmt_02d M @ '':''"]
      by simp
    have "scanInterval ?hms old =
        (True, 0 + (word_of_int 0 :: long) * 24 * 60 * 60 + word_of_int H * 60 * 60 +
           word_of_int M * 60 + word_of_int S)"
      using scanInterval_hms [OF trim, of old] fmt_02d_no_separator [OF H(1)]
        fmt_02d_no_separator [OF M(1)] rH rM rS
      by (simp add: atol_Nil aH aM aS)
    also have "\<dots> = (True, secs)"
      using total unfolding long_sum D by simp
    finally show ?thesis by (simp only: t)
  next
    case False
    then have Dpos: "0 < D" by simp
    let ?t = "dec D @ '' '' @ ?hms"
    have t: "formatInterval secs = ?t" using False fmt by (simp add: fmt_d_def)
    have aD: "atol (dec D) = word_of_int D" using D0 D1 by (simp add: atol_dec)
    have rD: "0 \<le>s (word_of_int D :: long)" using D0 D1 by (simp add: long_in_range)
    have "\<forall>c\<in>set (dec D). isdigit c" using dec_digits [OF D0] by blast
    then have trim: "Trim ?t '' '' = ?t"
      using Trim_between_digits [OF dec_nonempty _ fmt_02d_digits(1,2) [OF S(1)],
          of D "'' '' @ fmt_02d H @ '':'' @ fmt_02d M @ '':''"]
      by simp
    have "scanInterval ?t old =
        (True, 0 + (word_of_int D :: long) * 24 * 60 * 60 + word_of_int H * 60 * 60 +
           word_of_int M * 60 + word_of_int S)"
      using scanInterval_dhms [OF trim, of old] dec_no_separator [OF D0]
        fmt_02d_no_separator [OF H(1)] fmt_02d_no_separator [OF M(1)] rD rH rM rS
      by (simp add: aD aH aM aS)
    also have "\<dots> = (True, secs)"
      using total unfolding long_sum by simp
    finally show ?thesis by (simp only: t)
  qed
qed

section \<open>scanInterval on every text\<close>

lemma count_list_remove_char:
  assumes "i < length s \<longrightarrow> s ! i \<noteq> c"
  shows "count_list (remove_chars s i 1) c = count_list s c"
proof (cases "i < length s")
  case True
  then have "s = take i s @ s ! i # drop (Suc i) s"
    by (simp add: id_take_nth_drop)
  then have "count_list s c = count_list (take i s @ s ! i # drop (Suc i) s) c"
    by simp
  also have "\<dots> = count_list (take i s @ drop (Suc i) s) c"
    using True assms by simp
  finally show ?thesis using True by (simp add: remove_chars_def)
next
  case False
  then show ?thesis by (simp add: remove_chars_def)
qed

lemma removed_is_space:
  assumes "indexOf_char '' '' (charAt s i) 0 \<noteq> - 1" and "c \<noteq> CHR '' ''" "c \<noteq> CHR 0x00"
  shows "i < length s \<longrightarrow> s ! i \<noteq> c"
  using assms by (auto simp add: indexOf_char_space charAt_def split: if_splits)

lemma count_list_Trim_left_eq:
  "c \<noteq> CHR '' '' \<Longrightarrow> c \<noteq> CHR 0x00 \<Longrightarrow>
   count_list (Trim_left '' '' ret i) c = count_list ret c"
proof (induction "'' ''" ret i rule: Trim_left.induct)
  case (1 ret i)
  show ?case
  proof (cases "i < length ret \<and> indexOf_char '' '' (charAt ret i) 0 \<noteq> - 1")
    case True
    then have "count_list (Trim_left '' '' (remove_chars ret i 1) i) c =
        count_list (remove_chars ret i 1) c"
      using "1.hyps" "1.prems" by simp
    also have "\<dots> = count_list ret c"
      using True "1.prems" by (intro count_list_remove_char removed_is_space) simp_all
    finally show ?thesis using True by (subst Trim_left.simps) simp
  next
    case False
    then show ?thesis by (subst Trim_left.simps) auto
  qed
qed

lemma count_list_Trim_right_eq:
  "c \<noteq> CHR '' '' \<Longrightarrow> c \<noteq> CHR 0x00 \<Longrightarrow>
   count_list (Trim_right '' '' ret i) c = count_list ret c"
proof (induction "'' ''" ret i rule: Trim_right.induct)
  case (1 ret i)
  show ?case
  proof (cases "i \<ge> 0 \<and> indexOf_char '' '' (charAt ret (nat i)) 0 \<noteq> - 1")
    case True
    then have "count_list (Trim_right '' '' (remove_chars ret (nat i) 1) (i - 1)) c =
        count_list (remove_chars ret (nat i) 1) c"
      using "1.hyps" "1.prems" by simp
    also have "\<dots> = count_list ret c"
      using True "1.prems" by (intro count_list_remove_char removed_is_space) simp_all
    finally show ?thesis using True by (subst Trim_right.simps) simp
  next
    case False
    then show ?thesis by (subst Trim_right.simps) auto
  qed
qed

lemma count_list_Trim_colon:
  "count_list (Trim interval '' '') CHR '':'' = count_list interval CHR '':''"
  by (simp add: Trim_def count_list_Trim_left_eq count_list_Trim_right_eq)

lemma count_list_takeWhile_neq: "count_list (takeWhile (\<lambda>x. x \<noteq> c) s) c = 0"
  by (induction s) simp_all

lemma split_at_char:
  assumes "c \<in> set s"
  shows "s = before_char c s @ c # after_char c s"
proof -
  from assms have "dropWhile (\<lambda>x. x \<noteq> c) s \<noteq> []" by simp
  moreover from this have "hd (dropWhile (\<lambda>x. x \<noteq> c) s) = c"
    using hd_dropWhile [of "\<lambda>x. x \<noteq> c" s] by simp
  ultimately have "dropWhile (\<lambda>x. x \<noteq> c) s = c # after_char c s"
    by (cases "dropWhile (\<lambda>x. x \<noteq> c) s") (simp_all add: after_char_def)
  then show ?thesis
    using takeWhile_dropWhile_id [of "\<lambda>x. x \<noteq> c" s] by (simp add: before_char_def)
qed

lemma before_char_notin: "c \<notin> set (before_char c s)"
  by (simp add: before_char_def takeWhile_neq_notin)

lemma count_list_pos_iff: "0 < count_list s c \<longleftrightarrow> c \<in> set s"
  by (induction s) auto

lemma split_at_two_chars:
  assumes "2 \<le> count_list s c"
  shows "s = before_char c s @ c # before_char c (after_char c s) @
             c # after_char c (after_char c s)"
proof -
  from assms have 1: "c \<in> set s" using count_list_pos_iff [of s c] by simp
  then have s: "s = before_char c s @ c # after_char c s" by (rule split_at_char)
  have "count_list s c = count_list (before_char c s @ c # after_char c s) c"
    using s by simp
  then have "count_list s c = 1 + count_list (after_char c s) c"
    by (simp add: before_char_def count_list_takeWhile_neq)
  with assms have "c \<in> set (after_char c s)"
    using count_list_pos_iff [of "after_char c s" c] by simp
  then have "after_char c s = before_char c (after_char c s) @ c # after_char c (after_char c s)"
    by (rule split_at_char)
  with s show ?thesis by simp
qed

lemma two_colons_found:
  assumes "indexOf i [c] 0 \<noteq> - 1" and "indexOf i [c] (nat (indexOf i [c] 0 + 1)) \<noteq> - 1"
  shows "2 \<le> count_list i c"
proof -
  from assms(1) obtain k where k: "indexOf i [c] 0 = int k" "k < length i" "i ! k = c"
    using indexOf_found [of i c 0] by blast
  then have "nat (indexOf i [c] 0 + 1) = Suc k" by simp
  with assms(2) have "c \<in> set (drop (Suc k) i)"
    by (simp add: indexOf_single split: if_splits)
  then have a: "0 < count_list (drop (Suc k) i) c" by (simp add: count_list_pos_iff)
  have "i ! k \<in> set (take (Suc k) i)"
    using k(2) by (metis in_set_conv_nth length_take lessI min_less_iff_conj nth_take)
  then have b: "0 < count_list (take (Suc k) i) c" using k(3) by (simp add: count_list_pos_iff)
  have "count_list i c = count_list (take (Suc k) i @ drop (Suc k) i) c" by simp
  also have "\<dots> = count_list (take (Suc k) i) c + count_list (drop (Suc k) i) c"
    by (simp only: count_list_append)
  finally show ?thesis using a b by simp
qed

lemma scanInterval_few_colons:
  assumes "count_list interval CHR '':'' < 2"
  shows "scanInterval interval secs = (False, secs)"
proof -
  let ?i = "Trim interval '' ''"
  have "count_list ?i CHR '':'' < 2" using assms by (simp add: count_list_Trim_colon)
  then have "\<not> (indexOf ?i '':'' 0 \<noteq> - 1 \<and> indexOf ?i '':'' (nat (indexOf ?i '':'' 0 + 1)) \<noteq> - 1)"
    using two_colons_found [of ?i "CHR '':''"] by auto
  then show ?thesis by (auto simp add: scanInterval_def Let_def)
qed

lemma scanInterval_segments:
  assumes "2 \<le> count_list interval CHR '':''"
  shows "scanInterval interval secs =
     (if 0 \<le>s atol (days_segment (Trim interval '' '')) \<and>
         0 \<le>s atol (hours_segment (Trim interval '' '')) \<and>
         atol (hours_segment (Trim interval '' '')) \<le>s 23 \<and>
         0 \<le>s atol (minutes_segment (Trim interval '' '')) \<and>
         atol (minutes_segment (Trim interval '' '')) \<le>s 59 \<and>
         0 \<le>s atol (seconds_segment (Trim interval '' '')) \<and>
         atol (seconds_segment (Trim interval '' '')) \<le>s 59
      then (True, 0 + atol (days_segment (Trim interval '' '')) * 24 * 60 * 60 +
                  atol (hours_segment (Trim interval '' '')) * 60 * 60 +
                  atol (minutes_segment (Trim interval '' '')) * 60 +
                  atol (seconds_segment (Trim interval '' '')))
      else (False, secs))"
proof -
  define i where "i = Trim interval '' ''"
  define a where "a = before_char CHR '':'' i"
  define m where "m = minutes_segment i"
  define x where "x = seconds_segment i"
  have "2 \<le> count_list i CHR '':''" using assms by (simp add: i_def count_list_Trim_colon)
  then have i: "i = a @ '':'' @ m @ '':'' @ x"
    using split_at_two_chars [of i "CHR '':''"]
    by (simp add: a_def m_def x_def minutes_segment_def seconds_segment_def)
  have a: "CHR '':'' \<notin> set a" and m: "CHR '':'' \<notin> set m"
    by (simp_all add: a_def m_def minutes_segment_def before_char_notin)
  show ?thesis
  proof (cases "CHR '' '' \<in> set a")
    case True
    define d where "d = before_char CHR '' '' a"
    define h where "h = after_char CHR '' '' a"
    have s: "a = d @ '' '' @ h" using split_at_char [OF True] by (simp add: d_def h_def)
    have d: "CHR '' '' \<notin> set d" by (simp add: d_def before_char_notin)
    have "CHR '':'' \<notin> set (d @ '' '' @ h)" using a s by simp
    then have c: "CHR '':'' \<notin> set d" "CHR '':'' \<notin> set h" by simp_all
    have trim: "Trim interval '' '' = d @ '' '' @ h @ '':'' @ m @ '':'' @ x"
      using i s by (simp add: i_def)
    have seg: "days_segment i = d" "hours_segment i = h"
      using True
      by (simp_all add: days_segment_def hours_segment_def a_def [symmetric] d_def h_def)
    show ?thesis
      using scanInterval_dhms [OF trim c(1) d c(2) m, of secs]
      by (simp only: i_def [symmetric] seg m_def [symmetric] x_def [symmetric])
  next
    case False
    have trim: "Trim interval '' '' = a @ '':'' @ m @ '':'' @ x"
      using i by (simp add: i_def)
    have seg: "days_segment i = []" "hours_segment i = a"
      using False by (simp_all add: days_segment_def hours_segment_def a_def [symmetric])
    show ?thesis
      using scanInterval_hms [OF trim a False m, of secs]
      by (simp only: i_def [symmetric] seg m_def [symmetric] x_def [symmetric])
  qed
qed

lemma atol_no_digit:
  assumes "\<forall>c\<in>set s. \<not> isdigit c"
  shows "atol s = 0"
proof -
  have z: "digits_value 0 t = 0" if "\<forall>c\<in>set t. \<not> isdigit c" for t
    using that by (cases t) simp_all
  let ?s1 = "dropWhile isspace s"
  have 1: "\<forall>c\<in>set ?s1. \<not> isdigit c" using assms by (meson set_dropWhileD)
  have "set (tl t) \<subseteq> set t" for t :: string by (cases t) auto
  with 1 have 2: "\<forall>c\<in>set (tl ?s1). \<not> isdigit c" by blast
  show ?thesis using z [OF 1] z [OF 2] by (simp add: atol_def Let_def)
qed

section \<open>The claims on the interval codec\<close>

lemma set_remove_chars: "set (remove_chars s i n) \<subseteq> set s"
proof -
  have "set (take i s) \<subseteq> set s" "set (drop k s) \<subseteq> set s" for k
    by (simp_all add: set_take_subset set_drop_subset)
  then show ?thesis by (auto simp add: remove_chars_def Let_def)
qed

lemma set_Trim_left: "set (Trim_left chars ret i) \<subseteq> set ret"
proof (induction chars ret i rule: Trim_left.induct)
  case (1 chars ret i)
  show ?case
  proof (cases "i < length ret \<and> indexOf_char chars (charAt ret i) 0 \<noteq> - 1")
    case True
    then have "set (Trim_left chars (remove_chars ret i 1) i) \<subseteq> set (remove_chars ret i 1)"
      using "1.IH" by simp
    also have "\<dots> \<subseteq> set ret" by (rule set_remove_chars)
    finally show ?thesis using True by (subst Trim_left.simps) simp
  next
    case False
    then show ?thesis by (subst Trim_left.simps) auto
  qed
qed

lemma set_Trim_right: "set (Trim_right chars ret i) \<subseteq> set ret"
proof (induction chars ret i rule: Trim_right.induct)
  case (1 chars ret i)
  show ?case
  proof (cases "i \<ge> 0 \<and> indexOf_char chars (charAt ret (nat i)) 0 \<noteq> - 1")
    case True
    then have "set (Trim_right chars (remove_chars ret (nat i) 1) (i - 1))
        \<subseteq> set (remove_chars ret (nat i) 1)"
      using "1.IH" by simp
    also have "\<dots> \<subseteq> set ret" by (rule set_remove_chars)
    finally show ?thesis using True by (subst Trim_right.simps) simp
  next
    case False
    then show ?thesis by (subst Trim_right.simps) auto
  qed
qed

lemma set_Trim: "set (Trim data chars) \<subseteq> set data"
  unfolding Trim_def by (rule subset_trans [OF set_Trim_right set_Trim_left])

lemma set_before_char: "set (before_char c s) \<subseteq> set s"
  by (auto simp add: before_char_def dest: set_takeWhileD)

lemma set_after_char: "set (after_char c s) \<subseteq> set s"
proof -
  have "set (tl t) \<subseteq> set t" for t :: string by (cases t) auto
  then have "set (after_char c s) \<subseteq> set (dropWhile (\<lambda>x. x \<noteq> c) s)"
    by (simp add: after_char_def)
  then show ?thesis by (auto dest: set_dropWhileD)
qed

lemma set_segments:
  "set (days_segment t) \<subseteq> set t" "set (hours_segment t) \<subseteq> set t"
  "set (minutes_segment t) \<subseteq> set t" "set (seconds_segment t) \<subseteq> set t"
  using set_before_char set_after_char
  by (auto simp add: days_segment_def hours_segment_def minutes_segment_def
      seconds_segment_def) blast+

lemma long_not_sle: "\<not> (a :: long) \<le>s b \<longleftrightarrow> b <s a"
  by (simp add: word_sle_eq word_sless_alt not_le)

text \<open>
  Claim C1. For every integer \<open>s\<close> from 0 to \<open>2^31 - 1\<close>, the largest \<^verbatim>\<open>long\<close>, and
  so for every \<open>s\<close> from 0 to 9999999: \<open>s\<close> is a value of \<^verbatim>\<open>long\<close>, and \<open>scanInterval\<close>
  applied to \<open>formatInterval s\<close> succeeds and stores \<open>s\<close>, whatever \<open>secs\<close> held before.
\<close>

theorem interval_round_trip:
  assumes "0 \<le> s" and "s \<le> 2147483647"
  shows "sint (word_of_int s :: long) = s \<and>
         scanInterval (formatInterval (word_of_int s)) old = (True, word_of_int s)"
proof -
  have "sint (word_of_int s :: long) = s" using assms by (simp add: sint_long_of_int)
  then show ?thesis using assms(1) by (simp add: scanInterval_formatInterval)
qed

theorem interval_round_trip_witness:
  "formatInterval 9999999 = ''115 17:46:39'' \<and>
   scanInterval ''115 17:46:39'' 7 = (True, 9999999) \<and>
   sint (9999999 :: long) = 9999999"
proof -
  have f: "formatInterval 9999999 = ''115 17:46:39''" by code_simp
  have "(0 :: int) \<le> 9999999" "(9999999 :: int) \<le> 2147483647" by simp_all
  from interval_round_trip [OF this, of 7] f show ?thesis by simp
qed

text \<open>
  Claim C6. For every text and every previous content of \<open>secs\<close>: \<open>scanInterval\<close> fails
  and leaves \<open>secs\<close> as it was when the text has fewer than two colons, or the value
  \<open>atol\<close> reads from its hours segment is below 0 or above 23, or the one from its minutes
  or from its seconds segment is below 0 or above 59, or the one from its days segment is
  below 0. \<open>''25:00:00''\<close> fails and \<open>''1 12:30:45''\<close> succeeds with
  \<open>1 * 86400 + 12 * 3600 + 30 * 60 + 45\<close>.
\<close>

theorem scanInterval_failure_contract:
  "(count_list interval CHR '':'' < 2 \<or>
    atol (hours_segment (Trim interval '' '')) <s 0 \<or>
    23 <s atol (hours_segment (Trim interval '' '')) \<or>
    atol (minutes_segment (Trim interval '' '')) <s 0 \<or>
    59 <s atol (minutes_segment (Trim interval '' '')) \<or>
    atol (seconds_segment (Trim interval '' '')) <s 0 \<or>
    59 <s atol (seconds_segment (Trim interval '' '')) \<or>
    atol (days_segment (Trim interval '' '')) <s 0
    \<longrightarrow> scanInterval interval secs = (False, secs)) \<and>
   scanInterval ''25:00:00'' secs = (False, secs) \<and>
   scanInterval ''1 12:30:45'' secs = (True, 1 * 86400 + 12 * 3600 + 30 * 60 + 45)"
proof (intro conjI impI)
  assume bad: "count_list interval CHR '':'' < 2 \<or>
    atol (hours_segment (Trim interval '' '')) <s 0 \<or>
    23 <s atol (hours_segment (Trim interval '' '')) \<or>
    atol (minutes_segment (Trim interval '' '')) <s 0 \<or>
    59 <s atol (minutes_segment (Trim interval '' '')) \<or>
    atol (seconds_segment (Trim interval '' '')) <s 0 \<or>
    59 <s atol (seconds_segment (Trim interval '' '')) \<or>
    atol (days_segment (Trim interval '' '')) <s 0"
  show "scanInterval interval secs = (False, secs)"
  proof (cases "count_list interval CHR '':'' < 2")
    case True
    then show ?thesis by (rule scanInterval_few_colons)
  next
    case False
    then have two: "2 \<le> count_list interval CHR '':''" by simp
    from bad False have "\<not> (0 \<le>s atol (days_segment (Trim interval '' '')) \<and>
         0 \<le>s atol (hours_segment (Trim interval '' '')) \<and>
         atol (hours_segment (Trim interval '' '')) \<le>s 23 \<and>
         0 \<le>s atol (minutes_segment (Trim interval '' '')) \<and>
         atol (minutes_segment (Trim interval '' '')) \<le>s 59 \<and>
         0 \<le>s atol (seconds_segment (Trim interval '' '')) \<and>
         atol (seconds_segment (Trim interval '' '')) \<le>s 59)"
      using long_not_sle by blast
    then show ?thesis by (simp only: scanInterval_segments [OF two] if_False)
  qed
next
  show "scanInterval ''25:00:00'' secs = (False, secs)" by code_simp
next
  show "scanInterval ''1 12:30:45'' secs = (True, 1 * 86400 + 12 * 3600 + 30 * 60 + 45)"
    by code_simp
qed

theorem scanInterval_failure_contract_witness:
  "59 <s atol (minutes_segment (Trim ''12:60:00'' '' '')) \<and>
   scanInterval ''12:60:00'' 7 = (False, 7) \<and>
   count_list ''10:00'' CHR '':'' < 2 \<and> scanInterval ''10:00'' 7 = (False, 7)"
proof -
  have a: "59 <s atol (minutes_segment (Trim ''12:60:00'' '' ''))" by code_simp
  have b: "count_list ''10:00'' CHR '':'' < 2" by simp
  from a scanInterval_failure_contract [of "''12:60:00''" 7]
  have "scanInterval ''12:60:00'' 7 = (False, 7)" by blast
  moreover from b scanInterval_failure_contract [of "''10:00''" 7]
  have "scanInterval ''10:00'' 7 = (False, 7)" by blast
  ultimately show ?thesis using a b by blast
qed

text \<open>
  Claim C9. \<open>scanInterval\<close> does not ask for numeric segments. A text with at least two
  colons is accepted whenever the values \<open>atol\<close> reads from its segments are in range, and
  the result is computed from these values; \<open>atol\<close> reads 0 from a text without a digit.
  So every text with at least two colons and no digit is accepted with 0 seconds, among
  them \<open>''::''\<close> and \<open>''ab:cd:ef''\<close>.
\<close>

theorem scanInterval_non_numeric_segments:
  "(2 \<le> count_list interval CHR '':'' \<and>
    0 \<le>s atol (days_segment (Trim interval '' '')) \<and>
    0 \<le>s atol (hours_segment (Trim interval '' '')) \<and>
    atol (hours_segment (Trim interval '' '')) \<le>s 23 \<and>
    0 \<le>s atol (minutes_segment (Trim interval '' '')) \<and>
    atol (minutes_segment (Trim interval '' '')) \<le>s 59 \<and>
    0 \<le>s atol (seconds_segment (Trim interval '' '')) \<and>
    atol (seconds_segment (Trim interval '' '')) \<le>s 59
    \<longrightarrow> scanInterval interval secs =
          (True, atol (days_segment (Trim interval '' '')) * 24 * 60 * 60 +
                 atol (hours_segment (Trim interval '' '')) * 60 * 60 +
                 atol (minutes_segment (Trim interval '' '')) * 60 +
                 atol (seconds_segment (Trim interval '' '')))) \<and>
   ((\<forall>c\<in>set segment. \<not> isdigit c) \<longrightarrow> atol segment = 0) \<and>
   (2 \<le> count_list interval CHR '':'' \<and> (\<forall>c\<in>set interval. \<not> isdigit c)
    \<longrightarrow> scanInterval interval secs = (True, 0)) \<and>
   scanInterval ''::'' secs = (True, 0) \<and>
   scanInterval ''ab:cd:ef'' secs = (True, 0)"
proof (intro conjI impI)
  assume "2 \<le> count_list interval CHR '':'' \<and>
    0 \<le>s atol (days_segment (Trim interval '' '')) \<and>
    0 \<le>s atol (hours_segment (Trim interval '' '')) \<and>
    atol (hours_segment (Trim interval '' '')) \<le>s 23 \<and>
    0 \<le>s atol (minutes_segment (Trim interval '' '')) \<and>
    atol (minutes_segment (Trim interval '' '')) \<le>s 59 \<and>
    0 \<le>s atol (seconds_segment (Trim interval '' '')) \<and>
    atol (seconds_segment (Trim interval '' '')) \<le>s 59"
  then show "scanInterval interval secs =
          (True, atol (days_segment (Trim interval '' '')) * 24 * 60 * 60 +
                 atol (hours_segment (Trim interval '' '')) * 60 * 60 +
                 atol (minutes_segment (Trim interval '' '')) * 60 +
                 atol (seconds_segment (Trim interval '' '')))"
    by (simp add: scanInterval_segments)
next
  assume "\<forall>c\<in>set segment. \<not> isdigit c"
  then show "atol segment = 0" by (rule atol_no_digit)
next
  assume a: "2 \<le> count_list interval CHR '':'' \<and> (\<forall>c\<in>set interval. \<not> isdigit c)"
  then have "\<forall>c\<in>set (Trim interval '' ''). \<not> isdigit c"
    using set_Trim [of interval "'' ''"] by blast
  then have "atol (days_segment (Trim interval '' '')) = 0"
    "atol (hours_segment (Trim interval '' '')) = 0"
    "atol (minutes_segment (Trim interval '' '')) = 0"
    "atol (seconds_segment (Trim interval '' '')) = 0"
    using set_segments [of "Trim interval '' ''"] by (blast intro: atol_no_digit)+
  then show "scanInterval interval secs = (True, 0)"
    using a by (simp add: scanInterval_segments word_sle_eq)
next
  show "scanInterval ''::'' secs = (True, 0)" by code_simp
next
  show "scanInterval ''ab:cd:ef'' secs = (True, 0)" by code_simp
qed

theorem scanInterval_non_numeric_segments_witness:
  "2 \<le> count_list ''x:y z:'' CHR '':'' \<and> \<not> isdigit CHR ''x'' \<and> \<not> isdigit CHR '':'' \<and>
   \<not> isdigit CHR ''y'' \<and> \<not> isdigit CHR '' '' \<and> \<not> isdigit CHR ''z'' \<and>
   atol ''x:y z:'' = 0 \<and> scanInterval ''x:y z:'' 7 = (True, 0)"
proof -
  have d: "\<forall>c\<in>set ''x:y z:''. \<not> isdigit c" by (simp add: isdigit_def)
  have c: "2 \<le> count_list ''x:y z:'' CHR '':''" by simp
  from scanInterval_non_numeric_segments
    [where interval = "''x:y z:''" and segment = "''x:y z:''" and secs = 7] c d
  have "atol ''x:y z:'' = 0 \<and> scanInterval ''x:y z:'' 7 = (True, 0)" by blast
  with c d show ?thesis by simp
qed

end
